theory Spec2Isabelle
  imports Main
begin

section \<open>Configuration (docunation.c, lines 43-59)\<close>

definition MAX_LINE :: nat where "MAX_LINE = 4096"
definition MAX_NAME :: nat where "MAX_NAME = 256"
definition MAX_DOC :: nat where "MAX_DOC = 8192"
definition MAX_SIG :: nat where "MAX_SIG = 8192"
definition MAX_NODES :: nat where "MAX_NODES = 2048"

section \<open>Characters and C strings\<close>

text \<open>
  A C string is the list of its bytes before the terminating NUL. The classification
  functions of \<open>ctype.h\<close> are those of the "C" locale (the program never calls
  \<open>setlocale\<close>).
\<close>

definition NUL :: char where "NUL = CHR 0x00"
definition newline :: char where "newline = CHR 0x0A"
definition backslash :: char where "backslash = CHR 0x5C"
definition dquote :: char where "dquote = CHR 0x22"

definition isspace :: "char \<Rightarrow> bool" where
  "isspace c = (c = CHR '' '' \<or> c = CHR 0x09 \<or> c = CHR 0x0A \<or> c = CHR 0x0B
                \<or> c = CHR 0x0C \<or> c = CHR 0x0D)"

definition isalnum :: "char \<Rightarrow> bool" where
  "isalnum c = (let n = (of_char c :: nat) in
     (48 \<le> n \<and> n \<le> 57) \<or> (65 \<le> n \<and> n \<le> 90) \<or> (97 \<le> n \<and> n \<le> 122))"

definition is_ident_char :: "char \<Rightarrow> bool" where
  "is_ident_char c = (isalnum c \<or> c = CHR ''_'')"

text \<open>\<open>cstr\<close> reads a buffer as a C string: the bytes before the first NUL.\<close>

definition cstr :: "string \<Rightarrow> string" where
  "cstr buf = takeWhile (\<lambda>c. c \<noteq> NUL) buf"

definition ltrim :: "string \<Rightarrow> string" where
  "ltrim s = dropWhile isspace s"

text \<open>
  \<open>rtrim\<close> walks back from the last byte while \<open>end > s\<close>, so the first byte is
  never removed.
\<close>

definition rtrim :: "string \<Rightarrow> string" where
  "rtrim s = (case s of [] \<Rightarrow> [] | c # cs \<Rightarrow> c # rev (dropWhile isspace (rev cs)))"

definition trim :: "string \<Rightarrow> string" where
  "trim s = rtrim (ltrim s)"

text \<open>
  \<open>trim\<close> returns a pointer past the leading whitespace, but the NUL it writes lands in
  the caller's buffer: read from its start, the buffer keeps its leading whitespace.
\<close>

definition trim_inplace :: "string \<Rightarrow> string" where
  "trim_inplace s = takeWhile isspace s @ rtrim (dropWhile isspace s)"

definition safe_strcpy :: "string \<Rightarrow> string \<Rightarrow> nat \<Rightarrow> string" where
  "safe_strcpy dest src sz = (if sz = 0 then dest else take (sz - 1) src)"

definition safe_append :: "string \<Rightarrow> string \<Rightarrow> nat \<Rightarrow> string" where
  "safe_append dest src sz =
     (if sz = 0 then dest
      else if length dest \<ge> sz - 1 then dest
      else dest @ take (sz - length dest - 1) src)"

definition starts_with :: "string \<Rightarrow> string \<Rightarrow> bool" where
  "starts_with str prefix = (take (length prefix) str = prefix)"

text \<open>\<open>strchr\<close> and \<open>strstr\<close> return the suffix at the first occurrence (the pointer), or None (NULL).\<close>

definition strchr :: "string \<Rightarrow> char \<Rightarrow> string option" where
  "strchr s c = (case dropWhile (\<lambda>x. x \<noteq> c) s of [] \<Rightarrow> None | r # rs \<Rightarrow> Some (r # rs))"

fun strstr :: "string \<Rightarrow> string \<Rightarrow> string option" where
  "strstr [] needle = (if needle = [] then Some [] else None)"
| "strstr (c # cs) needle =
     (if starts_with (c # cs) needle then Some (c # cs) else strstr cs needle)"

definition has_chr :: "string \<Rightarrow> char \<Rightarrow> bool" where
  "has_chr s c = (strchr s c \<noteq> None)"

definition has_str :: "string \<Rightarrow> string \<Rightarrow> bool" where
  "has_str s needle = (strstr s needle \<noteq> None)"

text \<open>\<open>*p = '\0'\<close> for \<open>p = strchr(s, c)\<close>, when the pointer is not NULL.\<close>

definition cut_at :: "char \<Rightarrow> string \<Rightarrow> string" where
  "cut_at c s = (case strchr s c of None \<Rightarrow> s | Some r \<Rightarrow> take (length s - length r) s)"

text \<open>\<open>strrchr\<close>: the text after the last occurrence of the character.\<close>

definition after_last :: "char \<Rightarrow> string \<Rightarrow> string option" where
  "after_last c s = (if c \<in> set s then Some (rev (takeWhile (\<lambda>x. x \<noteq> c) (rev s))) else None)"

definition extract_module_name :: "string \<Rightarrow> nat \<Rightarrow> string" where
  "extract_module_name path sz =
     (let base = (case after_last (CHR ''/'') path of
                    Some b \<Rightarrow> b
                  | None \<Rightarrow> (case after_last backslash path of
                               Some b \<Rightarrow> b | None \<Rightarrow> path));
          nm = safe_strcpy [] base sz
      in if CHR ''.'' \<in> set nm
         then take (length nm - Suc (length (takeWhile (\<lambda>x. x \<noteq> CHR ''.'') (rev nm)))) nm
         else nm)"

section \<open>Data model (lines 82-120, 232-239)\<close>

datatype NodeType = NODE_FUNCTION | NODE_STRUCT | NODE_UNION | NODE_ENUM
  | NODE_TYPEDEF | NODE_MACRO | NODE_VARIABLE | NODE_INCLUDE

record DocNode =
  name :: string
  type :: NodeType
  line :: int
  docstring :: string
  signature :: string
  return_type :: string
  is_static :: bool
  is_inline :: bool
  is_extern :: bool

text \<open>
  The node array is a function from the index; \<open>node_count\<close> says how many slots are
  entities. The fields \<open>docstring\<close> and \<open>module_name\<close> of \<open>DOCUNATION\<close> and \<open>line\<close> of
  \<open>Parser\<close> are named \<open>doc_docstring\<close>, \<open>doc_module_name\<close> and \<open>line_buf\<close> here: \<open>DocNode\<close> has
  fields \<open>docstring\<close> and \<open>line\<close>, and \<open>module_name\<close> is a keyword of Isabelle.
\<close>

record DOCUNATION =
  filepath :: string
  doc_module_name :: string
  doc_docstring :: string
  nodes :: "nat \<Rightarrow> DocNode"
  node_count :: nat
  timestamp :: string

text \<open>
  \<open>fp\<close> is what is left to read of the input stream. \<open>line_buf\<close> holds the raw bytes of
  the \<open>line\<close> array up to the last byte ever written; every byte beyond is NUL (the
  parser is allocated with \<open>calloc\<close>). The line numbers are \<open>int\<close> in the source and
  unbounded integers here: the counter grows by one per line read and cannot wrap on a
  file of fewer than \<open>2^31\<close> lines.
\<close>

record Parser =
  fp :: string
  line_buf :: string
  line_num :: int
  pending_comment :: string
  pending_comment_line :: int
  doc :: DOCUNATION

datatype fault = CannotOpen | OutOfBounds

definition zero_node :: DocNode where
  "zero_node = \<lparr>name = [], type = NODE_FUNCTION, line = 0, docstring = [], signature = [],
                 return_type = [], is_static = False, is_inline = False, is_extern = False\<rparr>"

definition zero_doc :: DOCUNATION where
  "zero_doc = \<lparr>filepath = [], doc_module_name = [], doc_docstring = [],
                nodes = (\<lambda>_. zero_node), node_count = 0, timestamp = []\<rparr>"

definition zero_parser :: Parser where
  "zero_parser = \<lparr>fp = [], line_buf = [], line_num = 0, pending_comment = [],
                   pending_comment_line = 0, doc = zero_doc\<rparr>"

text \<open>The entities of a document: the first \<open>node_count\<close> slots, in order.\<close>

definition entities :: "DOCUNATION \<Rightarrow> DocNode list" where
  "entities d = map (nodes d) [0..<node_count d]"

text \<open>The text of the current line, and the writes to the line buffer.\<close>

definition cur :: "Parser \<Rightarrow> string" where
  "cur p = cstr (line_buf p)"

definition store_line :: "string \<Rightarrow> string \<Rightarrow> string" where
  "store_line chunk buf = chunk @ NUL # drop (Suc (length chunk)) buf"

definition poke_nul :: "nat \<Rightarrow> string \<Rightarrow> string" where
  "poke_nul i buf = (if i < length buf then buf[i := NUL] else buf)"

definition trim_buf :: "string \<Rightarrow> string" where
  "trim_buf buf = poke_nul (length (trim_inplace (cstr buf))) buf"

text \<open>
  \<open>fgets(buf, n, fp)\<close>: at most \<open>n - 1\<close> bytes, up to and including the first newline;
  None at the end of the stream. The result is the bytes read and the rest of the stream.
\<close>

definition fgets :: "nat \<Rightarrow> string \<Rightarrow> (string \<times> string) option" where
  "fgets n s =
     (if s = [] then None
      else let k = min (n - 1) (Suc (length (takeWhile (\<lambda>c. c \<noteq> newline) s)))
           in Some (take k s, drop k s))"

text \<open>The slot an extractor fills is \<open>nodes[node_count]\<close>; \<open>ADD_NODE\<close> counts it unless the cap is reached.\<close>

definition put_node :: "DocNode \<Rightarrow> Parser \<Rightarrow> Parser" where
  "put_node n p = p\<lparr>doc := (doc p)\<lparr>nodes := (nodes (doc p))(node_count (doc p) := n)\<rparr>\<rparr>"

definition ADD_NODE :: "Parser \<Rightarrow> Parser" where
  "ADD_NODE p =
     (if node_count (doc p) \<ge> MAX_NODES - 1 then p
      else p\<lparr>doc := (doc p)\<lparr>node_count := node_count (doc p) + 1\<rparr>\<rparr>)"

section \<open>Reading lines (lines 300-309)\<close>

text \<open>
  Every read of the scanner is \<open>fgets(p->line, MAX_LINE, p->fp)\<close> followed by
  \<open>p->line_num++\<close>; \<open>fgets_line\<close> is the two together, None at the end of the stream.
\<close>

definition fgets_line :: "Parser \<Rightarrow> Parser option" where
  "fgets_line p =
     (case fgets MAX_LINE (fp p) of
        None \<Rightarrow> None
      | Some (chunk, rest) \<Rightarrow>
          Some (p\<lparr>fp := rest, line_buf := store_line chunk (line_buf p),
                  line_num := line_num p + 1\<rparr>))"

text \<open>\<open>trim(p->line)\<close>: the value returned, and the buffer afterwards.\<close>

definition trim_line :: "Parser \<Rightarrow> Parser" where
  "trim_line p = p\<lparr>line_buf := trim_buf (line_buf p)\<rparr>"

text \<open>
  \<open>next_line\<close> (lines 300-309) reads until a line that is not blank; the flag is its return
  value. The line counter counts the blank lines too.
\<close>

function next_line :: "Parser \<Rightarrow> bool \<times> Parser" where
  "next_line p =
     (case fgets_line p of
        None \<Rightarrow> (False, p)
      | Some q \<Rightarrow>
          (if length (trim (cur q)) > 0 then (True, trim_line q)
           else next_line (trim_line q)))"
  by pat_completeness auto

section \<open>Comments (lines 250-336)\<close>

text \<open>
  The loop of \<open>clean_comment\<close> (lines 261-288); \<open>room\<close> is the space left in \<open>cleaned\<close>.
\<close>

function clean_loop :: "string \<Rightarrow> bool \<Rightarrow> nat \<Rightarrow> string" where
  "clean_loop p at_line_start room =
     (if p = [] \<or> room = 0 then []
      else if starts_with p ''*/'' then clean_loop (drop 2 p) at_line_start room
      else if hd p = newline then newline # clean_loop (tl p) True (room - 1)
      else if at_line_start then
        (let p1 = dropWhile (\<lambda>c. c = CHR '' '' \<or> c = CHR 0x09) p;
             p2 = (if take 1 p1 = ''*'' \<and> take 1 (drop 1 p1) \<noteq> ''/''
                   then (if take 1 (drop 1 p1) = '' '' then drop 2 p1 else drop 1 p1)
                   else p1)
         in clean_loop p2 False room)
      else hd p # clean_loop (tl p) False (room - 1))"
  by pat_completeness auto

definition clean_comment :: "string \<Rightarrow> nat \<Rightarrow> string" where
  "clean_comment raw sz =
     (let p = (if starts_with raw ''/**'' then drop 3 raw
               else if starts_with raw ''/*'' then drop 2 raw
               else if starts_with raw ''//'' then drop 2 raw
               else raw)
      in trim_inplace (clean_loop p True (sz - 1)))"

text \<open>The loop of \<open>parse_block_comment\<close> (lines 326-332): raw lines, up to the one with the closing delimiter.\<close>

function block_comment_loop :: "Parser \<Rightarrow> string \<Rightarrow> Parser \<times> string" where
  "block_comment_loop p buf =
     (case fgets_line p of
        None \<Rightarrow> (p, buf)
      | Some q \<Rightarrow>
          (let buf1 = (if length buf + length (cur q) < MAX_DOC - 1
                       then safe_append buf (cur q) MAX_DOC else buf)
           in if has_str (cur q) ''*/'' then (q, buf1) else block_comment_loop q buf1))"
  by pat_completeness auto

definition parse_block_comment :: "Parser \<Rightarrow> Parser" where
  "parse_block_comment p =
     (let buf = safe_append [] (cur p) MAX_DOC
      in if has_str (cur p) ''*/''
         then p\<lparr>pending_comment := clean_comment buf MAX_DOC,
                pending_comment_line := line_num p\<rparr>
         else (case block_comment_loop p buf of
                 (q, buf1) \<Rightarrow> q\<lparr>pending_comment := clean_comment buf1 MAX_DOC,
                                  pending_comment_line := line_num q\<rparr>))"

section \<open>Entity extractors (lines 339-664)\<close>

text \<open>
  The docstring is copied and the pending comment cleared under the extractor's own
  condition on \<open>pending_comment_line\<close>; \<open>attach_doc\<close> is that \<open>if\<close> statement, with the
  condition as its first argument.
\<close>

definition attach_doc :: "bool \<Rightarrow> DocNode \<Rightarrow> Parser \<Rightarrow> DocNode \<times> Parser" where
  "attach_doc cond node p =
     (if cond
      then (node\<lparr>docstring := safe_strcpy (docstring node) (pending_comment p) MAX_DOC\<rparr>,
            p\<lparr>pending_comment := []\<rparr>)
      else (node, p))"

text \<open>The two backward walks of the name extraction, over indices into the buffer.\<close>

fun skip_back_space :: "string \<Rightarrow> nat \<Rightarrow> nat" where
  "skip_back_space s 0 = 0"
| "skip_back_space s (Suc n) = (if isspace (s ! Suc n) then skip_back_space s n else Suc n)"

fun skip_back_ident :: "string \<Rightarrow> nat \<Rightarrow> nat" where
  "skip_back_ident s 0 = 0"
| "skip_back_ident s (Suc n) = (if is_ident_char (s ! n) then skip_back_ident s n else Suc n)"

text \<open>\<open>strncpy(node->name, name_start, len)\<close> under the guard \<open>len > 0 && len < MAX_NAME\<close>.\<close>

definition copy_name :: "string \<Rightarrow> nat \<Rightarrow> nat \<Rightarrow> string" where
  "copy_name s name_start len =
     (if 0 < len \<and> len < MAX_NAME then take len (drop name_start s) else [])"

text \<open>The loop of \<open>parse_function\<close> (lines 355-361): lines are joined until a brace or a semicolon is there.\<close>

function func_sig_loop :: "Parser \<Rightarrow> string \<Rightarrow> Parser \<times> string" where
  "func_sig_loop p sig =
     (if \<not> has_chr sig (CHR ''{'') \<and> \<not> has_chr sig (CHR '';'')
      then (case fgets_line p of
              None \<Rightarrow> (p, sig)
            | Some q \<Rightarrow>
                func_sig_loop (trim_line q)
                  (safe_append (safe_append sig '' '' MAX_SIG) (trim (cur q)) MAX_SIG))
      else (p, sig))"
  by pat_completeness auto

text \<open>
  When the signature starts with the parenthesis, \<open>paren - 1\<close> points before the array
  \<open>sig\<close>, and the code reads and writes that byte: the model returns \<open>OutOfBounds\<close>.
\<close>

definition parse_function :: "Parser \<Rightarrow> bool \<Rightarrow> bool \<Rightarrow> bool \<Rightarrow> fault + Parser" where
  "parse_function p st inl ext =
     (let node0 = zero_node\<lparr>type := NODE_FUNCTION, line := line_num p, is_static := st,
                              is_inline := inl, is_extern := ext\<rparr>;
          (p1, sig1) = func_sig_loop p (safe_append [] (cur p) MAX_SIG);
          sig2 = cut_at (CHR '';'') (cut_at (CHR ''{'') sig1);
          node1 = node0\<lparr>signature := safe_strcpy [] (trim sig2) MAX_SIG\<rparr>;
          sig3 = trim_inplace sig2
      in case strchr sig3 (CHR ''('') of
           None \<Rightarrow>
             (case attach_doc (pending_comment_line p1 = line node1 - 1
                                 \<or> pending_comment_line p1 = line node1) node1 p1 of
                (node2, p2) \<Rightarrow> Inr (ADD_NODE (put_node node2 p2)))
         | Some r \<Rightarrow>
             (let paren = length sig3 - length r
              in if paren = 0 then Inl OutOfBounds
                 else
                   (let name_end = skip_back_space sig3 (paren - 1);
                        name_start = skip_back_ident sig3 name_end;
                        node2 = node1\<lparr>name := copy_name sig3 name_start (name_end - name_start + 1),
                                       return_type :=
                                         safe_strcpy [] (trim (take name_start sig3)) MAX_NAME\<rparr>
                    in case attach_doc (pending_comment_line p1 = line node2 - 1
                                          \<or> pending_comment_line p1 = line node2) node2 p1 of
                         (node3, p2) \<Rightarrow> Inr (ADD_NODE (put_node node3 p2)))))"

definition keyword_of :: "NodeType \<Rightarrow> string" where
  "keyword_of t = (if t = NODE_STRUCT then ''struct'' else if t = NODE_UNION then ''union'' else ''enum'')"

definition parse_aggregate :: "Parser \<Rightarrow> NodeType \<Rightarrow> Parser" where
  "parse_aggregate p t =
     (let node0 = zero_node\<lparr>type := t, line := line_num p\<rparr>;
          keyword = keyword_of t;
          nm = (case strstr (cur p) keyword of
                  None \<Rightarrow> []
                | Some kw_pos \<Rightarrow>
                    (let name_start = dropWhile isspace (drop (length keyword) kw_pos)
                     in copy_name name_start 0 (length (takeWhile is_ident_char name_start))));
          nm1 = (if nm = [] then take (MAX_NAME - 1) (''(anonymous '' @ keyword @ '')'') else nm);
          node1 = node0\<lparr>name := nm1, signature := safe_strcpy [] (trim (cur p)) MAX_SIG\<rparr>;
          p1 = trim_line p
      in case attach_doc (pending_comment_line p1 = line node1 - 1) node1 p1 of
           (node2, p2) \<Rightarrow> ADD_NODE (put_node node2 p2))"

text \<open>The loop of \<open>parse_typedef\<close> (lines 458-464): lines are joined until a semicolon is there.\<close>

function typedef_sig_loop :: "Parser \<Rightarrow> string \<Rightarrow> Parser \<times> string" where
  "typedef_sig_loop p sig =
     (if \<not> has_chr sig (CHR '';'')
      then (case fgets_line p of
              None \<Rightarrow> (p, sig)
            | Some q \<Rightarrow>
                typedef_sig_loop (trim_line q)
                  (safe_append (safe_append sig '' '' MAX_SIG) (trim (cur q)) MAX_SIG))
      else (p, sig))"
  by pat_completeness auto

text \<open>
  With an empty buffer \<open>sig + strlen(sig) - 1\<close> points before the array: \<open>OutOfBounds\<close>.
\<close>

definition parse_typedef :: "Parser \<Rightarrow> fault + Parser" where
  "parse_typedef p =
     (let node0 = zero_node\<lparr>type := NODE_TYPEDEF, line := line_num p\<rparr>;
          (p1, sig1) = typedef_sig_loop p (safe_append [] (cur p) MAX_SIG);
          sig2 = cut_at (CHR '';'') sig1
      in if sig2 = [] then Inl OutOfBounds
         else
           (let name_end = skip_back_space sig2 (length sig2 - 1);
                name_start = skip_back_ident sig2 name_end;
                node1 = node0\<lparr>name := copy_name sig2 name_start (name_end - name_start + 1),
                               signature := safe_strcpy [] (trim sig2) MAX_SIG\<rparr>
            in case attach_doc (pending_comment_line p1 = line node1 - 1) node1 p1 of
                 (node2, p2) \<Rightarrow> Inr (ADD_NODE (put_node node2 p2))))"

text \<open>The tests and the two updates of \<open>sig\<close> in the continuation loop of \<open>parse_macro\<close>.\<close>

definition has_backslash :: "string \<Rightarrow> bool" where
  "has_backslash sig = (length sig > 0 \<and> sig ! (length sig - 1) = backslash)"

definition penultimate_backslash :: "string \<Rightarrow> bool" where
  "penultimate_backslash sig = (length sig > 1 \<and> sig ! (length sig - 2) = backslash)"

definition blank_backslash :: "string \<Rightarrow> string" where
  "blank_backslash sig = (if has_backslash sig then sig[length sig - 1 := CHR '' ''] else sig)"

definition append_if_fits :: "string \<Rightarrow> string \<Rightarrow> string" where
  "append_if_fits sig trimmed =
     (if length sig + length trimmed < MAX_SIG - 1 then safe_append sig trimmed MAX_SIG else sig)"

function macro_loop :: "Parser \<Rightarrow> string \<Rightarrow> Parser \<times> string" where
  "macro_loop p sig =
     (if \<not> has_backslash sig \<and> \<not> penultimate_backslash sig then (p, sig)
      else (case fgets_line p of
              None \<Rightarrow> (p, blank_backslash sig)
            | Some q \<Rightarrow>
                macro_loop (trim_line q) (append_if_fits (blank_backslash sig) (trim (cur q)))))"
  by pat_completeness auto

definition parse_macro :: "Parser \<Rightarrow> Parser" where
  "parse_macro p =
     (let node0 = zero_node\<lparr>type := NODE_MACRO, line := line_num p\<rparr>
      in case strstr (cur p) ''#define'' of
           None \<Rightarrow> put_node node0 p
         | Some def \<Rightarrow>
             (let (p1, sig1) = macro_loop p (safe_strcpy [] def MAX_SIG);
                  name_start = dropWhile isspace (drop 7 sig1);
                  name_len = length (takeWhile (\<lambda>c. (is_ident_char c \<or> c = CHR ''('')
                                                      \<and> c \<noteq> CHR ''('') name_start);
                  node1 = node0\<lparr>name := copy_name name_start 0 name_len,
                                 signature := safe_strcpy [] (trim sig1) MAX_SIG\<rparr>
              in case attach_doc (pending_comment_line p1 = line node1 - 1) node1 p1 of
                   (node2, p2) \<Rightarrow> ADD_NODE (put_node node2 p2)))"

text \<open>The name between \<open><\<close> and \<open>>\<close>, or between the first pair of double quotes.\<close>

definition between :: "string option \<Rightarrow> char \<Rightarrow> string" where
  "between start c =
     (case start of
        None \<Rightarrow> []
      | Some s \<Rightarrow>
          (case strchr (tl s) c of
             None \<Rightarrow> []
           | Some e \<Rightarrow>
               (let len = length (tl s) - length e
                in if 0 < len \<and> len < MAX_NAME then take len (tl s) else [])))"

definition parse_include :: "Parser \<Rightarrow> Parser" where
  "parse_include p =
     (let node0 = zero_node\<lparr>type := NODE_INCLUDE, line := line_num p\<rparr>;
          nm = (case strchr (cur p) (CHR ''<'') of
                  Some s \<Rightarrow> between (Some s) (CHR ''>'')
                | None \<Rightarrow> between (strchr (cur p) dquote) dquote);
          node1 = node0\<lparr>name := nm, signature := safe_strcpy [] (trim (cur p)) MAX_SIG\<rparr>
      in ADD_NODE (put_node node1 (trim_line p)))"

text \<open>
  The reconstruction loop of \<open>parse_variable\<close> reads raw lines into \<open>p->line\<close> and appends
  one space per line read to \<open>sig\<close>.
\<close>

function variable_loop :: "Parser \<Rightarrow> string \<Rightarrow> Parser \<times> string" where
  "variable_loop p sig =
     (case fgets_line p of
        None \<Rightarrow> (p, sig)
      | Some q \<Rightarrow>
          (let sig1 = (if length sig + length (cur q) < MAX_SIG - 10
                       then safe_append sig '' '' MAX_SIG else sig)
           in if has_chr (cur q) (CHR ''}'') \<or> has_chr (cur q) (CHR '';'') then (q, sig1)
              else variable_loop q sig1))"
  by pat_completeness auto

text \<open>The name search of \<open>parse_variable\<close> (lines 624-647), from the text after the leading keywords.\<close>

fun variable_name :: "string \<Rightarrow> string" where
  "variable_name [] = []"
| "variable_name [c] = []"
| "variable_name (c # d # ds) =
     (if is_ident_char c \<or> c = CHR '' '' \<or> c = CHR ''*'' then
        (if c = CHR ''='' \<or> c = CHR ''['' then []
         else if isspace c \<and> is_ident_char d then
           (let name_end = dropWhile is_ident_char (d # ds);
                after = dropWhile isspace name_end
            in if take 1 after = ''['' \<or> take 1 after = ''='' \<or> take 1 after = '';''
               then copy_name (d # ds) 0 (length (takeWhile is_ident_char (d # ds)))
               else variable_name ds)
         else variable_name (d # ds))
      else [])"

text \<open>
  The argument \<open>line\<close> of \<open>parse_variable\<close> points into \<open>p->line\<close>, \<open>k\<close> bytes from its
  start; the name is read through it after the loop has overwritten the buffer.
\<close>

definition line_at :: "Parser \<Rightarrow> nat \<Rightarrow> string" where
  "line_at p k = cstr (drop k (line_buf p))"

text \<open>
  \<open>variable_sig\<close> is the declaration that \<open>parse_variable\<close> builds in \<open>sig\<close> (lines 596-611),
  with the parser after the reads.
\<close>

definition variable_sig :: "Parser \<Rightarrow> nat \<Rightarrow> Parser \<times> string" where
  "variable_sig p k =
     (let sig0 = safe_strcpy [] (line_at p k) MAX_SIG
      in if has_chr sig0 (CHR ''{'') \<and> \<not> has_chr sig0 (CHR ''}'')
         then variable_loop p sig0 else (p, sig0))"

definition parse_variable :: "Parser \<Rightarrow> nat \<Rightarrow> bool \<Rightarrow> Parser" where
  "parse_variable p k st =
     (let node0 = zero_node\<lparr>type := NODE_VARIABLE, line := line_num p, is_static := st\<rparr>;
          (p1, sig1) = variable_sig p k;
          s = line_at p1 k;
          s1 = (if take 7 s = ''static '' then drop 7 s else s);
          s2 = dropWhile isspace s1;
          s3 = (if take 6 s2 = ''const '' then drop 6 s2 else s2);
          s4 = dropWhile isspace s3;
          sig2 = (case strstr sig1 '' = '' of
                    Some eq \<Rightarrow> take (length sig1 - length eq) sig1
                  | None \<Rightarrow> cut_at (CHR ''{'') sig1);
          node1 = node0\<lparr>name := variable_name s4,
                         signature := safe_strcpy [] (trim sig2) MAX_SIG\<rparr>
      in case attach_doc (pending_comment_line p1 = line node1 - 1) node1 p1 of
           (node2, p2) \<Rightarrow> ADD_NODE (put_node node2 p2))"

section \<open>The scanner (lines 667-777) and the document (lines 791-836)\<close>

definition is_function_line :: "string \<Rightarrow> bool \<Rightarrow> bool \<Rightarrow> bool \<Rightarrow> bool" where
  "is_function_line ln st inl ext =
     (has_chr ln (CHR ''('')
      \<and> \<not> starts_with ln ''if''
      \<and> \<not> starts_with ln ''while''
      \<and> \<not> starts_with ln ''for''
      \<and> \<not> starts_with ln ''switch''
      \<and> \<not> starts_with ln ''return''
      \<and> \<not> has_str ln ''sizeof''
      \<and> \<not> has_str ln ''= ''
      \<and> \<not> has_str ln ''->''
      \<and> \<not> has_str ln ''.''
      \<and> (st \<or> inl \<or> ext
           \<or> starts_with ln ''void''
           \<or> starts_with ln ''int''
           \<or> starts_with ln ''char''
           \<or> starts_with ln ''long''
           \<or> starts_with ln ''short''
           \<or> starts_with ln ''unsigned''
           \<or> starts_with ln ''signed''
           \<or> starts_with ln ''float''
           \<or> starts_with ln ''double''
           \<or> starts_with ln ''size_t''
           \<or> starts_with ln ''const''
           \<or> has_str ln ''* ''
           \<or> has_str ln [CHR ''*'', CHR 0x09]))"

definition is_variable_line :: "Parser \<Rightarrow> string \<Rightarrow> bool \<Rightarrow> bool \<Rightarrow> bool" where
  "is_variable_line p ln st ext =
     (let at_file_scope = ((cur p \<noteq> [] \<and> \<not> isspace (hd (cur p))) \<or> st \<or> ext)
      in at_file_scope
         \<and> (st \<or> starts_with ln ''const '')
         \<and> \<not> has_chr ln (CHR ''('')
         \<and> \<not> has_str ln ''->''
         \<and> (has_str ln ''='' \<or> has_str ln ''[''))"

text \<open>
  \<open>handle_line\<close> is the body of the \<open>while\<close> loop of \<open>parse_file\<close>, for the line that
  \<open>next_line\<close> has read; \<open>line\<close> points \<open>k\<close> bytes into \<open>p->line\<close>.
\<close>

definition handle_line :: "Parser \<Rightarrow> fault + Parser" where
  "handle_line p =
     (let k = length (takeWhile isspace (cur p));
          ln = ltrim (cur p)
      in if starts_with ln ''/*'' then
           (let q = parse_block_comment p
            in if node_count (doc q) = 0 \<and> doc_docstring (doc q) = []
               then Inr (q\<lparr>doc := (doc q)\<lparr>doc_docstring :=
                            safe_strcpy (doc_docstring (doc q)) (pending_comment q) MAX_DOC\<rparr>\<rparr>)
               else Inr q)
         else if starts_with ln ''//'' then
           Inr (p\<lparr>pending_comment := clean_comment ln MAX_DOC,
                   pending_comment_line := line_num p\<rparr>)
         else if take 1 ln = ''#'' then
           (if starts_with ln ''#include'' then Inr (parse_include p)
            else if starts_with ln ''#define'' then Inr (parse_macro p)
            else Inr p)
         else
           (let st = has_str ln ''static '';
                inl = has_str ln ''inline '';
                ext = has_str ln ''extern ''
            in if has_str ln ''struct '' \<and> \<not> has_str ln ''typedef'' then
                 Inr (parse_aggregate p NODE_STRUCT)
               else if has_str ln ''union '' \<and> \<not> has_str ln ''typedef'' then
                 Inr (parse_aggregate p NODE_UNION)
               else if has_str ln ''enum '' \<and> \<not> has_str ln ''typedef'' then
                 Inr (parse_aggregate p NODE_ENUM)
               else if starts_with ln ''typedef'' then parse_typedef p
               else if is_function_line ln st inl ext then parse_function p st inl ext
               else if is_variable_line p ln st ext then Inr (parse_variable p k st)
               else if pending_comment_line p < line_num p - 1
                 then Inr (p\<lparr>pending_comment := []\<rparr>)
                 else Inr p))"

text \<open>The \<open>while\<close> loop of \<open>parse_file\<close> (lines 673-776).\<close>

function parse_loop :: "Parser \<Rightarrow> fault + Parser" where
  "parse_loop p =
     (case next_line p of
        (got, q) \<Rightarrow>
          (if got
           then (case handle_line q of Inl e \<Rightarrow> Inl e | Inr r \<Rightarrow> parse_loop r)
           else Inr q))"
  by pat_completeness auto

text \<open>
  The timestamps are the texts \<open>strftime\<close> produces from the wall clock: inputs of the
  model. \<open>parse_document\<close> writes \<open>unknown\<close> when \<open>localtime\<close> fails (None).
\<close>

definition parse_file :: "Parser \<Rightarrow> string \<Rightarrow> fault + Parser" where
  "parse_file p clock = parse_loop (p\<lparr>doc := (doc p)\<lparr>timestamp := clock\<rparr>\<rparr>)"

text \<open>
  \<open>file\<close> is the content \<open>fopen\<close> gives access to, None when the file cannot be opened.
  A failing \<open>calloc\<close> is not modelled.
\<close>

definition parse_document ::
    "string \<Rightarrow> string option \<Rightarrow> string option \<Rightarrow> string \<Rightarrow> fault + DOCUNATION" where
  "parse_document filename file clock1 clock2 =
     (case file of
        None \<Rightarrow> Inl CannotOpen
      | Some content \<Rightarrow>
          (let d = zero_doc\<lparr>filepath := safe_strcpy [] filename MAX_LINE,
                             doc_module_name := extract_module_name filename MAX_NAME,
                             timestamp := (case clock1 of
                                             Some t \<Rightarrow> t
                                           | None \<Rightarrow> safe_strcpy [] ''unknown'' 64)\<rparr>;
               parser = zero_parser\<lparr>fp := content, doc := d\<rparr>
           in (case parse_file parser clock2 of
                 Inl e \<Rightarrow> Inl e
               | Inr q \<Rightarrow> Inr (doc q))))"

section \<open>Predicates used in the statements\<close>

text \<open>
  The loops that read lines change the stream, the line buffer and the line counter,
  and nothing else; the stream only shrinks and the counter only grows.
\<close>

definition reads_on :: "Parser \<Rightarrow> Parser \<Rightarrow> bool" where
  "reads_on p q =
     (length (fp q) \<le> length (fp p) \<and> line_num p \<le> line_num q
      \<and> pending_comment q = pending_comment p
      \<and> pending_comment_line q = pending_comment_line p
      \<and> doc q = doc p)"

text \<open>
  An extractor reads on, writes the slot \<open>nodes[node_count]\<close> with a node of the line it
  started on, and counts it at most once, and only below the cap. It may clear the text
  of the pending comment; it keeps the line number of the pending comment and the other
  fields of the document.
\<close>

definition fills_slot :: "Parser \<Rightarrow> Parser \<Rightarrow> bool" where
  "fills_slot p r =
     (length (fp r) \<le> length (fp p) \<and> line_num p \<le> line_num r
      \<and> pending_comment_line r = pending_comment_line p
      \<and> line (nodes (doc r) (node_count (doc p))) = line_num p
      \<and> (\<forall>i. i \<noteq> node_count (doc p) \<longrightarrow> nodes (doc r) i = nodes (doc p) i)
      \<and> (node_count (doc r) = node_count (doc p)
         \<or> (node_count (doc r) = node_count (doc p) + 1 \<and> node_count (doc r) \<le> MAX_NODES - 1))
      \<and> filepath (doc r) = filepath (doc p)
      \<and> doc_module_name (doc r) = doc_module_name (doc p)
      \<and> doc_docstring (doc r) = doc_docstring (doc p)
      \<and> timestamp (doc r) = timestamp (doc p))"

definition scan_step :: "Parser \<Rightarrow> Parser \<Rightarrow> bool" where
  "scan_step p r =
     (length (fp r) \<le> length (fp p) \<and> line_num p \<le> line_num r
      \<and> (\<forall>i. i \<noteq> node_count (doc p) \<longrightarrow> nodes (doc r) i = nodes (doc p) i)
      \<and> (node_count (doc r) = node_count (doc p)
         \<or> (node_count (doc r) = node_count (doc p) + 1 \<and> node_count (doc r) \<le> MAX_NODES - 1
            \<and> line (nodes (doc r) (node_count (doc p))) = line_num p))
      \<and> filepath (doc r) = filepath (doc p)
      \<and> doc_module_name (doc r) = doc_module_name (doc p)
      \<and> timestamp (doc r) = timestamp (doc p))"

text \<open>The node an extractor wrote: the slot at the count the parser had before the call.\<close>

definition written :: "Parser \<Rightarrow> Parser \<Rightarrow> DocNode" where
  "written p r = nodes (doc r) (node_count (doc p))"

text \<open>
  \<open>attached c p r\<close>: under the condition \<open>c\<close> the node written has the pending comment of
  \<open>p\<close> as its docstring and the pending comment is cleared; otherwise the docstring is
  empty and the pending comment is kept.
\<close>

definition attached :: "bool \<Rightarrow> Parser \<Rightarrow> Parser \<Rightarrow> bool" where
  "attached c p r =
     (docstring (written p r) = (if c then safe_strcpy [] (pending_comment p) MAX_DOC else [])
      \<and> pending_comment r = (if c then [] else pending_comment p))"


text \<open>\<open>kept p q\<close>: the entities of \<open>p\<close> are the first entities of \<open>q\<close>, unchanged.\<close>

definition kept :: "Parser \<Rightarrow> Parser \<Rightarrow> bool" where
  "kept p q =
     (node_count (doc p) \<le> node_count (doc q)
      \<and> (\<forall>i. i < node_count (doc p) \<longrightarrow> nodes (doc q) i = nodes (doc p) i))"

text \<open>\<open>stamp t p\<close> is \<open>p\<close> with the timestamp of its document set to \<open>t\<close>.\<close>

definition stamp :: "string \<Rightarrow> Parser \<Rightarrow> Parser" where
  "stamp t p = p\<lparr>doc := (doc p)\<lparr>timestamp := t\<rparr>\<rparr>"

text \<open>\<open>factor t s\<close>: \<open>t\<close> is a run of consecutive bytes of \<open>s\<close>.\<close>

definition factor :: "string \<Rightarrow> string \<Rightarrow> bool" where
  "factor t s = (\<exists>u v. s = u @ t @ v)"

section \<open>Scanner states used as examples\<close>


definition after_comment :: "string \<Rightarrow> Parser" where
  "after_comment rest =
     zero_parser\<lparr>fp := rest, line_buf := ''/* doc */'', line_num := 1,
                  pending_comment := ''doc'', pending_comment_line := 1\<rparr>"

definition at_first_comment :: "string \<Rightarrow> Parser" where
  "at_first_comment rest = zero_parser\<lparr>fp := rest, line_buf := ''/* doc */'', line_num := 1\<rparr>"


definition on_line :: "string \<Rightarrow> Parser" where
  "on_line text = zero_parser\<lparr>line_buf := text, line_num := 1\<rparr>"

section \<open>Termination of the reading loops\<close>

lemma fgets_shorter: "fgets MAX_LINE s = Some (chunk, rest) \<Longrightarrow> length rest < length s"
  by (auto simp: fgets_def MAX_LINE_def Let_def split: if_splits)

lemma fgets_line_shorter: "fgets_line p = Some q \<Longrightarrow> length (fp q) < length (fp p)"
  by (auto simp: fgets_line_def split: option.splits dest: fgets_shorter)

lemma fp_trim_line: "fp (trim_line p) = fp p"
  by (simp add: trim_line_def)

termination next_line
  by (relation "measure (\<lambda>p. length (fp p))") (auto simp: fp_trim_line dest: fgets_line_shorter)

termination clean_loop
proof (relation "measure (\<lambda>(p, a, r). 2 * length p + (if a then 1 else 0))", goal_cases)
  case (4 p a r p1 p2)
  have "length p1 \<le> length p"
    using 4 by (simp add: length_dropWhile_le)
  moreover have "length p2 \<le> length p1"
    using 4 by (auto split: if_splits)
  ultimately show ?case using 4 by auto
qed (auto simp: starts_with_def neq_Nil_conv)

termination block_comment_loop
  by (relation "measure (\<lambda>(p, buf). length (fp p))") (auto dest: fgets_line_shorter)

termination func_sig_loop
  by (relation "measure (\<lambda>(p, sig). length (fp p))")
     (auto simp: fp_trim_line dest: fgets_line_shorter)

termination typedef_sig_loop
  by (relation "measure (\<lambda>(p, sig). length (fp p))")
     (auto simp: fp_trim_line dest: fgets_line_shorter)

termination macro_loop
  by (relation "measure (\<lambda>(p, sig). length (fp p))")
     (auto simp: fp_trim_line dest: fgets_line_shorter)

termination variable_loop
  by (relation "measure (\<lambda>(p, sig). length (fp p))") (auto dest: fgets_line_shorter)

section \<open>What the scanner changes\<close>

subsection \<open>What a read changes\<close>

lemma reads_on_refl: "reads_on p p"
  by (simp add: reads_on_def)

lemma reads_on_trans: "reads_on p q \<Longrightarrow> reads_on q r \<Longrightarrow> reads_on p r"
  by (auto simp: reads_on_def)

lemma reads_on_trim_line: "reads_on p (trim_line p)"
  by (simp add: reads_on_def trim_line_def)

lemma line_num_trim_line: "line_num (trim_line p) = line_num p"
  by (simp add: trim_line_def)

lemma fgets_line_reads_on: "fgets_line p = Some q \<Longrightarrow> reads_on p q"
  by (auto simp: fgets_line_def reads_on_def split: option.splits dest: fgets_shorter)

lemma fgets_line_line_num: "fgets_line p = Some q \<Longrightarrow> line_num q = line_num p + 1"
  by (auto simp: fgets_line_def split: option.splits)

lemma fgets_trim_reads_on: "fgets_line p = Some q \<Longrightarrow> reads_on p (trim_line q)"
  by (blast intro: reads_on_trans fgets_line_reads_on reads_on_trim_line)

lemma next_line_reads_on: "next_line p = (b, q) \<Longrightarrow> reads_on p q"
proof (induction p rule: next_line.induct)
  case (1 p)
  show ?case
  proof (cases "fgets_line p")
    case None
    with 1(2) show ?thesis by (simp add: reads_on_refl)
  next
    case (Some r)
    note step = fgets_trim_reads_on[OF Some]
    show ?thesis
    proof (cases "length (trim (cur r)) > 0")
      case True
      with 1(2) Some step show ?thesis by auto
    next
      case False
      with 1(2) Some have "next_line (trim_line r) = (b, q)" by simp
      from 1(1)[OF Some False this] step show ?thesis by (rule reads_on_trans[rotated])
    qed
  qed
qed

lemma next_line_got:
  assumes "next_line p = (True, q)"
  shows "length (fp q) < length (fp p) \<and> line_num p < line_num q"
proof (cases "fgets_line p")
  case None
  with assms show ?thesis by simp
next
  case (Some r)
  note lt = fgets_line_shorter[OF Some] fgets_line_line_num[OF Some]
  show ?thesis
  proof (cases "length (trim (cur r)) > 0")
    case True
    with assms Some lt show ?thesis by (auto simp: fp_trim_line line_num_trim_line)
  next
    case False
    with assms Some have "next_line (trim_line r) = (True, q)" by simp
    from next_line_reads_on[OF this] lt show ?thesis
      by (simp add: reads_on_def fp_trim_line line_num_trim_line)
  qed
qed

lemma block_comment_loop_reads_on:
  "block_comment_loop p buf = (q, buf') \<Longrightarrow> reads_on p q"
proof (induction p buf rule: block_comment_loop.induct)
  case (1 p buf)
  show ?case
  proof (cases "fgets_line p")
    case None
    with 1(2) show ?thesis by (simp add: reads_on_refl)
  next
    case (Some r)
    note step = fgets_line_reads_on[OF Some]
    show ?thesis
    proof (cases "has_str (cur r) ''*/''")
      case True
      with 1(2) Some step show ?thesis by (auto simp: Let_def)
    next
      case False
      with 1(2) Some have
        "block_comment_loop r (if length buf + length (cur r) < MAX_DOC - 1
                               then safe_append buf (cur r) MAX_DOC else buf) = (q, buf')"
        by (simp add: Let_def)
      from 1(1)[OF Some refl False this] step show ?thesis by (rule reads_on_trans[rotated])
    qed
  qed
qed

lemma func_sig_loop_reads_on:
  "func_sig_loop p sig = (q, sig') \<Longrightarrow> reads_on p q"
proof (induction p sig rule: func_sig_loop.induct)
  case (1 p sig)
  show ?case
  proof (cases "\<not> has_chr sig (CHR ''{'') \<and> \<not> has_chr sig (CHR '';'')")
    case False
    with 1(2) show ?thesis by (auto simp: reads_on_refl)
  next
    case True
    show ?thesis
    proof (cases "fgets_line p")
      case None
      with True 1(2) show ?thesis by (simp add: reads_on_refl)
    next
      case (Some r)
      with True 1(2) have
        "func_sig_loop (trim_line r)
           (safe_append (safe_append sig '' '' MAX_SIG) (trim (cur r)) MAX_SIG) = (q, sig')"
        by simp
      from 1(1)[OF True Some this] fgets_trim_reads_on[OF Some]
      show ?thesis by (rule reads_on_trans[rotated])
    qed
  qed
qed

lemma typedef_sig_loop_reads_on:
  "typedef_sig_loop p sig = (q, sig') \<Longrightarrow> reads_on p q"
proof (induction p sig rule: typedef_sig_loop.induct)
  case (1 p sig)
  show ?case
  proof (cases "\<not> has_chr sig (CHR '';'')")
    case False
    with 1(2) show ?thesis by (auto simp: reads_on_refl)
  next
    case True
    show ?thesis
    proof (cases "fgets_line p")
      case None
      with True 1(2) show ?thesis by (simp add: reads_on_refl)
    next
      case (Some r)
      with True 1(2) have
        "typedef_sig_loop (trim_line r)
           (safe_append (safe_append sig '' '' MAX_SIG) (trim (cur r)) MAX_SIG) = (q, sig')"
        by simp
      from 1(1)[OF True Some this] fgets_trim_reads_on[OF Some]
      show ?thesis by (rule reads_on_trans[rotated])
    qed
  qed
qed

lemma macro_loop_reads_on:
  "macro_loop p sig = (q, sig') \<Longrightarrow> reads_on p q"
proof (induction p sig rule: macro_loop.induct)
  case (1 p sig)
  show ?case
  proof (cases "\<not> has_backslash sig \<and> \<not> penultimate_backslash sig")
    case True
    with 1(2) show ?thesis by (auto simp: reads_on_refl)
  next
    case False
    show ?thesis
    proof (cases "fgets_line p")
      case None
      with False 1(2) show ?thesis by (auto simp: reads_on_refl)
    next
      case (Some r)
      with False 1(2) have
        "macro_loop (trim_line r) (append_if_fits (blank_backslash sig) (trim (cur r))) = (q, sig')"
        by auto
      from 1(1)[OF False Some this] fgets_trim_reads_on[OF Some]
      show ?thesis by (rule reads_on_trans[rotated])
    qed
  qed
qed

lemma variable_loop_reads_on:
  "variable_loop p sig = (q, sig') \<Longrightarrow> reads_on p q"
proof (induction p sig rule: variable_loop.induct)
  case (1 p sig)
  show ?case
  proof (cases "fgets_line p")
    case None
    with 1(2) show ?thesis by (simp add: reads_on_refl)
  next
    case (Some r)
    note step = fgets_line_reads_on[OF Some]
    show ?thesis
    proof (cases "has_chr (cur r) (CHR ''}'') \<or> has_chr (cur r) (CHR '';'')")
      case True
      with 1(2) Some step show ?thesis by (auto simp: Let_def)
    next
      case False
      with 1(2) Some have
        "variable_loop r (if length sig + length (cur r) < MAX_SIG - 10
                          then safe_append sig '' '' MAX_SIG else sig) = (q, sig')"
        by (simp add: Let_def)
      from 1(1)[OF Some refl False this] step show ?thesis by (rule reads_on_trans[rotated])
    qed
  qed
qed

declare next_line.simps [simp del] block_comment_loop.simps [simp del]
  func_sig_loop.simps [simp del] typedef_sig_loop.simps [simp del]
  macro_loop.simps [simp del] variable_loop.simps [simp del] clean_loop.simps [simp del]

subsection \<open>What an extractor changes\<close>

lemma fills_slotI:
  assumes "reads_on p q" and "line n = line_num p"
    and "pending_comment_line q' = pending_comment_line q" and "fp q' = fp q"
    and "line_num q' = line_num q" and "doc q' = doc q"
  shows "fills_slot p (ADD_NODE (put_node n q'))"
  using assms unfolding fills_slot_def reads_on_def ADD_NODE_def put_node_def
  by (cases "node_count (doc p) \<ge> MAX_NODES - 1") auto

lemma attach_doc_frame:
  assumes "attach_doc c n q = (n', q')"
  shows "line n' = line n \<and> pending_comment_line q' = pending_comment_line q \<and> fp q' = fp q
         \<and> line_num q' = line_num q \<and> doc q' = doc q"
  using assms by (auto simp: attach_doc_def split: if_splits)

lemma parse_function_fills_slot:
  assumes "parse_function p st inl ext = Inr r"
  shows "fills_slot p r"
proof -
  obtain p1 sig1 where loop: "func_sig_loop p (safe_append [] (cur p) MAX_SIG) = (p1, sig1)"
    by (cases "func_sig_loop p (safe_append [] (cur p) MAX_SIG)")
  note ro = func_sig_loop_reads_on[OF loop]
  from assms loop show ?thesis
    unfolding parse_function_def Let_def
    by (auto split: option.splits prod.splits if_splits
             dest!: attach_doc_frame intro!: fills_slotI[OF ro])
qed

lemma parse_typedef_fills_slot:
  assumes "parse_typedef p = Inr r"
  shows "fills_slot p r"
proof -
  obtain p1 sig1 where loop: "typedef_sig_loop p (safe_append [] (cur p) MAX_SIG) = (p1, sig1)"
    by (cases "typedef_sig_loop p (safe_append [] (cur p) MAX_SIG)")
  note ro = typedef_sig_loop_reads_on[OF loop]
  from assms loop show ?thesis
    unfolding parse_typedef_def Let_def
    by (auto split: option.splits prod.splits if_splits
             dest!: attach_doc_frame intro!: fills_slotI[OF ro])
qed

lemma parse_aggregate_fills_slot: "fills_slot p (parse_aggregate p t)"
  unfolding parse_aggregate_def Let_def
  by (auto split: prod.splits dest!: attach_doc_frame
           intro!: fills_slotI[OF reads_on_trim_line] simp: line_num_trim_line)

lemma parse_include_fills_slot: "fills_slot p (parse_include p)"
  unfolding parse_include_def Let_def
  by (auto intro!: fills_slotI[OF reads_on_refl] simp: trim_line_def)

lemma parse_macro_fills_slot: "fills_slot p (parse_macro p)"
proof (cases "strstr (cur p) ''#define''")
  case None
  then show ?thesis
    by (auto simp: parse_macro_def fills_slot_def put_node_def)
next
  case (Some d)
  obtain p1 sig1 where loop: "macro_loop p (safe_strcpy [] d MAX_SIG) = (p1, sig1)"
    by (cases "macro_loop p (safe_strcpy [] d MAX_SIG)")
  note ro = macro_loop_reads_on[OF loop]
  from Some loop show ?thesis
    unfolding parse_macro_def Let_def
    by (auto split: prod.splits dest!: attach_doc_frame intro!: fills_slotI[OF ro])
qed

lemma variable_sig_reads_on: "variable_sig p k = (q, sig) \<Longrightarrow> reads_on p q"
  by (auto simp: variable_sig_def Let_def reads_on_refl split: if_splits
           dest: variable_loop_reads_on)

lemma parse_variable_fills_slot: "fills_slot p (parse_variable p k st)"
proof -
  obtain p1 sig1 where loop: "variable_sig p k = (p1, sig1)"
    by (cases "variable_sig p k")
  note ro = variable_sig_reads_on[OF loop]
  from loop show ?thesis
    unfolding parse_variable_def Let_def
    by (auto split: prod.splits dest!: attach_doc_frame intro!: fills_slotI[OF ro])
qed

subsection \<open>What one step of the scanner changes\<close>

lemma fills_slot_scan_step: "fills_slot p r \<Longrightarrow> scan_step p r"
  by (auto simp: fills_slot_def scan_step_def)

lemma reads_on_scan_step:
  assumes "reads_on p q" and "fp r = fp q" and "line_num r = line_num q"
    and "nodes (doc r) = nodes (doc q)" and "node_count (doc r) = node_count (doc q)"
    and "filepath (doc r) = filepath (doc q)"
    and "doc_module_name (doc r) = doc_module_name (doc q)"
    and "timestamp (doc r) = timestamp (doc q)"
  shows "scan_step p r"
  using assms by (auto simp: reads_on_def scan_step_def)

lemma parse_block_comment_reads:
  "\<exists>q. reads_on p q \<and> parse_block_comment p =
         q\<lparr>pending_comment := pending_comment (parse_block_comment p),
           pending_comment_line := line_num q\<rparr>"
proof (cases "has_str (cur p) ''*/''")
  case True
  then show ?thesis
    by (intro exI[of _ p]) (simp add: parse_block_comment_def Let_def reads_on_refl)
next
  case False
  obtain q buf1 where loop: "block_comment_loop p (safe_append [] (cur p) MAX_DOC) = (q, buf1)"
    by (cases "block_comment_loop p (safe_append [] (cur p) MAX_DOC)")
  from False loop block_comment_loop_reads_on[OF loop] show ?thesis
    by (intro exI[of _ q]) (simp add: parse_block_comment_def Let_def)
qed

lemma handle_line_scan_step:
  assumes "handle_line p = Inr r"
  shows "scan_step p r"
proof -
  let ?ln = "ltrim (cur p)"
  consider (block) "starts_with ?ln ''/*''"
    | (line) "\<not> starts_with ?ln ''/*''" "starts_with ?ln ''//''"
    | (pre) "\<not> starts_with ?ln ''/*''" "\<not> starts_with ?ln ''//''" "take 1 ?ln = ''#''"
    | (code) "\<not> starts_with ?ln ''/*''" "\<not> starts_with ?ln ''//''" "take 1 ?ln \<noteq> ''#''"
    by blast
  then show ?thesis
  proof cases
    case block
    obtain q where q: "reads_on p q"
      "parse_block_comment p = q\<lparr>pending_comment := pending_comment (parse_block_comment p),
                                  pending_comment_line := line_num q\<rparr>"
      using parse_block_comment_reads by blast
    have "scan_step p (parse_block_comment p)"
      by (rule reads_on_scan_step[OF q(1)]) (subst q(2), simp)+
    with assms block show ?thesis
      by (auto simp: handle_line_def Let_def scan_step_def split: if_splits)
  next
    case line
    with assms show ?thesis
      by (auto simp: handle_line_def Let_def scan_step_def)
  next
    case pre
    with assms parse_include_fills_slot[of p, THEN fills_slot_scan_step]
      parse_macro_fills_slot[of p, THEN fills_slot_scan_step]
    show ?thesis
      by (auto simp: handle_line_def Let_def split: if_splits) (simp add: scan_step_def)
  next
    case code
    with assms
      parse_aggregate_fills_slot[of p NODE_STRUCT, THEN fills_slot_scan_step]
      parse_aggregate_fills_slot[of p NODE_UNION, THEN fills_slot_scan_step]
      parse_aggregate_fills_slot[of p NODE_ENUM, THEN fills_slot_scan_step]
      parse_variable_fills_slot[of p "length (takeWhile isspace (cur p))"
         "has_str (ltrim (cur p)) ''static ''", THEN fills_slot_scan_step]
    show ?thesis
      unfolding handle_line_def Let_def
      by (auto split: if_splits
               dest: parse_typedef_fills_slot[THEN fills_slot_scan_step]
                     parse_function_fills_slot[THEN fills_slot_scan_step])
         (simp_all add: scan_step_def)
  qed
qed

lemma handle_line_fp: "handle_line p = Inr q \<Longrightarrow> length (fp q) \<le> length (fp p)"
  by (drule handle_line_scan_step) (simp add: scan_step_def)

lemma parse_loop_shrinks:
  assumes "next_line p = (got, q)" and "got" and "handle_line q = Inr r"
  shows "length (fp r) < length (fp p)"
  using next_line_got[of p q] handle_line_fp[OF assms(3)] assms(1,2) by simp

termination parse_loop
  by (relation "measure (\<lambda>p. length (fp p))") (auto intro: parse_loop_shrinks[OF sym])

declare parse_loop.simps [simp del]

subsection \<open>The pending comment and the current line\<close>


text \<open>
  In a scan the pending comment has always closed before the line an extractor starts
  on: \<open>pending_comment_line \<le> line_num\<close> holds after every step, and \<open>next_line\<close>
  moves on by at least one line.
\<close>

lemma fills_slot_pending:
  "fills_slot p r \<Longrightarrow> pending_comment_line p \<le> line_num p
   \<Longrightarrow> pending_comment_line r \<le> line_num r"
  by (simp add: fills_slot_def)

lemma handle_line_pending:
  assumes "handle_line p = Inr r" and "pending_comment_line p \<le> line_num p"
  shows "pending_comment_line r \<le> line_num r"
proof -
  let ?ln = "ltrim (cur p)"
  consider (block) "starts_with ?ln ''/*''"
    | (line) "\<not> starts_with ?ln ''/*''" "starts_with ?ln ''//''"
    | (pre) "\<not> starts_with ?ln ''/*''" "\<not> starts_with ?ln ''//''" "take 1 ?ln = ''#''"
    | (code) "\<not> starts_with ?ln ''/*''" "\<not> starts_with ?ln ''//''" "take 1 ?ln \<noteq> ''#''"
    by blast
  then show ?thesis
  proof cases
    case block
    obtain q where q: "reads_on p q"
      "parse_block_comment p = q\<lparr>pending_comment := pending_comment (parse_block_comment p),
                                  pending_comment_line := line_num q\<rparr>"
      using parse_block_comment_reads by blast
    have "pending_comment_line (parse_block_comment p) = line_num (parse_block_comment p)"
      by (subst (1 2) q(2)) simp
    with assms(1) block show ?thesis
      by (auto simp: handle_line_def Let_def split: if_splits)
  next
    case line
    with assms(1) show ?thesis
      by (auto simp: handle_line_def Let_def)
  next
    case pre
    with assms
      fills_slot_pending[OF parse_include_fills_slot[of p]]
      fills_slot_pending[OF parse_macro_fills_slot[of p]]
    show ?thesis
      by (auto simp: handle_line_def Let_def split: if_splits)
  next
    case code
    with assms
      fills_slot_pending[OF parse_aggregate_fills_slot[of p NODE_STRUCT]]
      fills_slot_pending[OF parse_aggregate_fills_slot[of p NODE_UNION]]
      fills_slot_pending[OF parse_aggregate_fills_slot[of p NODE_ENUM]]
      fills_slot_pending[OF parse_variable_fills_slot[of p "length (takeWhile isspace (cur p))"
         "has_str (ltrim (cur p)) ''static ''"]]
    show ?thesis
      unfolding handle_line_def Let_def
      by (auto split: if_splits
               dest: fills_slot_pending[OF parse_typedef_fills_slot]
                     fills_slot_pending[OF parse_function_fills_slot])
  qed
qed

lemma next_line_pending:
  assumes "next_line p = (True, q)" and "pending_comment_line p \<le> line_num p"
  shows "pending_comment_line q < line_num q"
  using next_line_got[OF assms(1)] next_line_reads_on[OF assms(1)] assms(2)
  by (simp add: reads_on_def)

section \<open>Evaluation\<close>

text \<open>The definitions and loop equations that evaluate a scan of a concrete input.\<close>

lemmas scan_defs = MAX_LINE_def MAX_NAME_def MAX_DOC_def MAX_SIG_def MAX_NODES_def
  NUL_def newline_def backslash_def dquote_def isspace_def isalnum_def is_ident_char_def
  cstr_def ltrim_def rtrim_def trim_def trim_inplace_def safe_strcpy_def safe_append_def
  starts_with_def strchr_def has_chr_def has_str_def cut_at_def after_last_def
  extract_module_name_def zero_node_def zero_doc_def zero_parser_def entities_def
  cur_def store_line_def poke_nul_def trim_buf_def fgets_def put_node_def ADD_NODE_def
  fgets_line_def trim_line_def clean_comment_def parse_block_comment_def attach_doc_def
  copy_name_def parse_function_def keyword_of_def parse_aggregate_def parse_typedef_def
  has_backslash_def penultimate_backslash_def blank_backslash_def append_if_fits_def
  parse_macro_def between_def parse_include_def line_at_def variable_sig_def
  parse_variable_def is_function_line_def is_variable_line_def handle_line_def
  parse_file_def parse_document_def Let_def

lemmas loop_simps = next_line.simps block_comment_loop.simps func_sig_loop.simps
  typedef_sig_loop.simps macro_loop.simps variable_loop.simps clean_loop.simps
  parse_loop.simps

section \<open>Macros with a continuation line\<close>

text \<open>
  C6. Scanning the line \<open>#define BIG(x) \\<close> followed by the line \<open>  ((x)*(x))\<close> gives
  exactly one entity: the macro \<open>BIG\<close>, whose signature is the first fragment with its
  backslash replaced by a space, followed by the second fragment, trimmed. No backslash
  is left in it.
\<close>

theorem macro_continuation_joined:
  "map_sum id entities
     (parse_document filename
        (Some (''#define BIG(x) '' @ [backslash, newline] @ ''  ((x)*(x))'' @ [newline]))
        clock1 clock2)
   = Inr [\<lparr>name = ''BIG'', type = NODE_MACRO, line = 1, docstring = [],
           signature = ''#define BIG(x) '' @ '' '' @ ''((x)*(x))'', return_type = [],
           is_static = False, is_inline = False, is_extern = False\<rparr>]
   \<and> backslash \<notin> set (''#define BIG(x) '' @ '' '' @ ''((x)*(x))'')"
  by (simp add: scan_defs loop_simps)

section \<open>Doc attachment\<close>

lemmas extract_simps = attached_def written_def attach_doc_def ADD_NODE_def put_node_def
  trim_line_def zero_node_def reads_on_def

lemma parse_aggregate_attached:
  "attached (pending_comment_line p = line_num p - 1) p (parse_aggregate p t)"
  unfolding parse_aggregate_def Let_def by (simp add: extract_simps)

lemma parse_aggregate_written:
  "type (written p (parse_aggregate p t)) = t
   \<and> signature (written p (parse_aggregate p t)) = safe_strcpy [] (trim (cur p)) MAX_SIG"
  unfolding parse_aggregate_def Let_def by (simp add: extract_simps)

lemma parse_include_written:
  "type (written p (parse_include p)) = NODE_INCLUDE
   \<and> docstring (written p (parse_include p)) = []
   \<and> pending_comment (parse_include p) = pending_comment p
   \<and> signature (written p (parse_include p)) = safe_strcpy [] (trim (cur p)) MAX_SIG"
  unfolding parse_include_def Let_def by (simp add: extract_simps)

lemma parse_function_attached:
  assumes "parse_function p st inl ext = Inr r"
  shows "attached (pending_comment_line p = line_num p - 1
                   \<or> pending_comment_line p = line_num p) p r"
    and "type (written p r) = NODE_FUNCTION"
proof -
  obtain p1 sig1 where loop: "func_sig_loop p (safe_append [] (cur p) MAX_SIG) = (p1, sig1)"
    by (cases "func_sig_loop p (safe_append [] (cur p) MAX_SIG)")
  note ro = func_sig_loop_reads_on[OF loop, unfolded reads_on_def]
  from assms loop ro
  show "attached (pending_comment_line p = line_num p - 1
                   \<or> pending_comment_line p = line_num p) p r"
    unfolding parse_function_def Let_def
    by (auto simp: extract_simps split: option.splits if_splits)
  from assms loop ro show "type (written p r) = NODE_FUNCTION"
    unfolding parse_function_def Let_def
    by (auto simp: extract_simps split: option.splits if_splits)
qed

lemma parse_typedef_attached:
  assumes "parse_typedef p = Inr r"
  shows "attached (pending_comment_line p = line_num p - 1) p r"
    and "type (written p r) = NODE_TYPEDEF"
proof -
  obtain p1 sig1 where loop: "typedef_sig_loop p (safe_append [] (cur p) MAX_SIG) = (p1, sig1)"
    by (cases "typedef_sig_loop p (safe_append [] (cur p) MAX_SIG)")
  note ro = typedef_sig_loop_reads_on[OF loop, unfolded reads_on_def]
  from assms loop ro show "attached (pending_comment_line p = line_num p - 1) p r"
    unfolding parse_typedef_def Let_def
    by (auto simp: extract_simps split: option.splits if_splits)
  from assms loop ro show "type (written p r) = NODE_TYPEDEF"
    unfolding parse_typedef_def Let_def
    by (auto simp: extract_simps split: option.splits if_splits)
qed

lemma parse_macro_attached:
  assumes "has_str (cur p) ''#define''"
  shows "attached (pending_comment_line p = line_num p - 1) p (parse_macro p)"
    and "type (written p (parse_macro p)) = NODE_MACRO"
proof -
  from assms obtain d where d: "strstr (cur p) ''#define'' = Some d"
    by (auto simp: has_str_def)
  obtain p1 sig1 where loop: "macro_loop p (safe_strcpy [] d MAX_SIG) = (p1, sig1)"
    by (cases "macro_loop p (safe_strcpy [] d MAX_SIG)")
  note ro = macro_loop_reads_on[OF loop, unfolded reads_on_def]
  from d loop ro show "attached (pending_comment_line p = line_num p - 1) p (parse_macro p)"
    unfolding parse_macro_def Let_def by (auto simp: extract_simps)
  from d loop ro show "type (written p (parse_macro p)) = NODE_MACRO"
    unfolding parse_macro_def Let_def by (auto simp: extract_simps)
qed

lemma parse_variable_attached:
  "attached (pending_comment_line p = line_num p - 1) p (parse_variable p k st)"
  "type (written p (parse_variable p k st)) = NODE_VARIABLE"
proof -
  obtain p1 sig1 where loop: "variable_sig p k = (p1, sig1)"
    by (cases "variable_sig p k")
  note ro = variable_sig_reads_on[OF loop, unfolded reads_on_def]
  from loop ro show "attached (pending_comment_line p = line_num p - 1) p (parse_variable p k st)"
    unfolding parse_variable_def Let_def by (auto simp: extract_simps)
  from loop ro show "type (written p (parse_variable p k st)) = NODE_VARIABLE"
    unfolding parse_variable_def Let_def by (auto simp: extract_simps)
qed

lemma handle_line_records:
  assumes "handle_line q = Inr r" and "node_count (doc r) \<noteq> node_count (doc q)"
  shows "r = parse_include q
         \<or> (has_str (cur q) ''#define'' \<and> r = parse_macro q)
         \<or> (\<exists>t. r = parse_aggregate q t)
         \<or> parse_typedef q = Inr r
         \<or> (\<exists>st inl ext. parse_function q st inl ext = Inr r)
         \<or> (\<exists>k st. r = parse_variable q k st)"
proof -
  obtain b where b: "reads_on q b"
      "parse_block_comment q = b\<lparr>pending_comment := pending_comment (parse_block_comment q),
                                  pending_comment_line := line_num b\<rparr>"
    using parse_block_comment_reads by blast
  have bc: "node_count (doc (parse_block_comment q)) = node_count (doc q)"
    by (subst b(2)) (use b(1) in \<open>simp add: reads_on_def\<close>)
  have mc: "\<not> has_str (cur q) ''#define''
            \<Longrightarrow> node_count (doc (parse_macro q)) = node_count (doc q)"
    by (auto simp: has_str_def parse_macro_def put_node_def)
  from assms bc mc show ?thesis
    unfolding handle_line_def Let_def
    by (auto split: if_splits)
qed




section \<open>Comments and the lines after them\<close>

lemma next_line_after_blank:
  assumes "fgets_line p = Some b" and "length (trim (cur b)) = 0" and "next_line p = (True, q)"
  shows "line_num p + 2 \<le> line_num q"
proof -
  from assms have "next_line (trim_line b) = (True, q)"
    by (simp add: next_line.simps[of p])
  from next_line_got[OF this] fgets_line_line_num[OF assms(1)]
  show ?thesis by (simp add: line_num_trim_line)
qed

lemma recorded_unattached:
  assumes "handle_line q = Inr r" and "node_count (doc r) \<noteq> node_count (doc q)"
    and "pending_comment_line q \<noteq> line_num q - 1" and "pending_comment_line q \<noteq> line_num q"
  shows "attached False q r"
proof -
  from handle_line_records[OF assms(1,2)]
  consider "r = parse_include q" | "has_str (cur q) ''#define''" "r = parse_macro q"
    | t where "r = parse_aggregate q t" | "parse_typedef q = Inr r"
    | st inl ext where "parse_function q st inl ext = Inr r"
    | k st where "r = parse_variable q k st"
    by blast
  then show ?thesis
  proof cases
    case 1
    then show ?thesis using parse_include_written[of q] by (simp add: attached_def)
  next
    case 2
    then show ?thesis using parse_macro_attached(1)[of q] assms(3) by simp
  next
    case 3
    then show ?thesis using parse_aggregate_attached[of q t] assms(3) by simp
  next
    case 4
    then show ?thesis using parse_typedef_attached(1)[of q r] assms(3) by simp
  next
    case 5
    then show ?thesis using parse_function_attached(1)[of q st inl ext r] assms(3,4) by simp
  next
    case 6
    then show ?thesis using parse_variable_attached(1)[of q k st] assms(3) by simp
  qed
qed

text \<open>
  C9. A comment has just closed on the current line of \<open>p\<close>, and the next physical line
  is blank. Then the line that \<open>next_line\<close> delivers is at least two lines further, and
  whatever entity the scanner records for it has an empty docstring; the comment stays
  pending.
\<close>

theorem blank_line_breaks_attachment:
  assumes "pending_comment_line p = line_num p"
    and "fgets_line p = Some b" and "length (trim (cur b)) = 0"
    and "next_line p = (True, q)"
    and "handle_line q = Inr r" and "node_count (doc r) \<noteq> node_count (doc q)"
  shows "pending_comment_line q + 2 \<le> line_num q
         \<and> docstring (written q r) = []
         \<and> pending_comment r = pending_comment q"
proof -
  from next_line_reads_on[OF assms(4)] have same: "pending_comment_line q = pending_comment_line p"
    by (simp add: reads_on_def)
  from next_line_after_blank[OF assms(2,3,4)] assms(1) same
  have far: "pending_comment_line q + 2 \<le> line_num q" by simp
  then have "pending_comment_line q \<noteq> line_num q - 1" "pending_comment_line q \<noteq> line_num q"
    by simp_all
  from recorded_unattached[OF assms(5,6) this] far show ?thesis
    by (simp add: attached_def)
qed

theorem blank_line_breaks_attachment_witness:
  "pending_comment_line (after_comment ([newline] @ ''int f(void);'' @ [newline])) =
     line_num (after_comment ([newline] @ ''int f(void);'' @ [newline]))
   \<and> (\<exists>q r. next_line (after_comment ([newline] @ ''int f(void);'' @ [newline])) = (True, q)
         \<and> handle_line q = Inr r \<and> node_count (doc r) \<noteq> node_count (doc q)
         \<and> line_num q = 3 \<and> type (written q r) = NODE_FUNCTION
         \<and> docstring (written q r) = [] \<and> pending_comment r = ''doc'')"
proof -
  let ?p = "after_comment ([newline] @ ''int f(void);'' @ [newline])"
  let ?b = "the (fgets_line ?p)"
  let ?q = "snd (next_line ?p)"
  let ?r = "projr (handle_line ?q)"
  have 1: "pending_comment_line ?p = line_num ?p"
    by (simp add: after_comment_def scan_defs)
  have 2: "fgets_line ?p = Some ?b"
    by (simp add: after_comment_def scan_defs)
  have 3: "length (trim (cur ?b)) = 0"
    by (simp add: after_comment_def scan_defs)
  have 4: "next_line ?p = (True, ?q)"
    by (simp add: after_comment_def scan_defs loop_simps)
  have 5: "handle_line ?q = Inr ?r"
    by (simp add: after_comment_def scan_defs loop_simps)
  have 6: "node_count (doc ?r) \<noteq> node_count (doc ?q)"
    by (simp add: after_comment_def scan_defs loop_simps)
  have 7: "line_num ?q = 3 \<and> type (written ?q ?r) = NODE_FUNCTION \<and> pending_comment ?q = ''doc''"
    by (simp add: after_comment_def written_def scan_defs loop_simps)
  from blank_line_breaks_attachment[OF 1 2 3 4 5 6] 7
  have "docstring (written ?q ?r) = [] \<and> pending_comment ?r = ''doc''" by simp
  with 1 4 5 6 7 show ?thesis by blast
qed

lemma first_block_comment:
  assumes "starts_with (ltrim (cur p)) ''/*''" and "node_count (doc p) = 0"
    and "doc_docstring (doc p) = []" and "handle_line p = Inr q"
  shows "doc_docstring (doc q) = safe_strcpy [] (pending_comment q) MAX_DOC
         \<and> pending_comment_line q = line_num q \<and> node_count (doc q) = 0"
proof -
  obtain b where b: "reads_on p b"
      "parse_block_comment p = b\<lparr>pending_comment := pending_comment (parse_block_comment p),
                                  pending_comment_line := line_num b\<rparr>"
    using parse_block_comment_reads by blast
  have d: "doc (parse_block_comment p) = doc p"
    by (subst b(2)) (use b(1) in \<open>simp add: reads_on_def\<close>)
  have l: "pending_comment_line (parse_block_comment p) = line_num (parse_block_comment p)"
    by (subst (1 2) b(2)) simp
  from assms d l show ?thesis
    by (auto simp: handle_line_def Let_def)
qed

lemma recorded_attached:
  assumes "handle_line q = Inr r" and "node_count (doc r) \<noteq> node_count (doc q)"
    and "pending_comment_line q = line_num q - 1" and "type (written q r) \<noteq> NODE_INCLUDE"
  shows "attached True q r \<and> doc_docstring (doc r) = doc_docstring (doc q)"
proof -
  from handle_line_records[OF assms(1,2)]
  consider "r = parse_include q" | "has_str (cur q) ''#define''" "r = parse_macro q"
    | t where "r = parse_aggregate q t" | "parse_typedef q = Inr r"
    | st inl ext where "parse_function q st inl ext = Inr r"
    | k st where "r = parse_variable q k st"
    by blast
  then show ?thesis
  proof cases
    case 1
    then show ?thesis using parse_include_written[of q] assms(4) by simp
  next
    case 2
    then show ?thesis using parse_macro_attached(1)[of q] parse_macro_fills_slot[of q] assms(3)
      by (simp add: fills_slot_def)
  next
    case 3
    then show ?thesis
      using parse_aggregate_attached[of q t] parse_aggregate_fills_slot[of q t] assms(3)
      by (simp add: fills_slot_def)
  next
    case 4
    then show ?thesis
      using parse_typedef_attached(1)[of q r] parse_typedef_fills_slot[of q r] assms(3)
      by (simp add: fills_slot_def)
  next
    case 5
    then show ?thesis
      using parse_function_attached(1)[of q st inl ext r]
        parse_function_fills_slot[of q st inl ext r] assms(3)
      by (simp add: fills_slot_def)
  next
    case 6
    then show ?thesis
      using parse_variable_attached(1)[of q k st] parse_variable_fills_slot[of q k st] assms(3)
      by (simp add: fills_slot_def)
  qed
qed

text \<open>
  C10 (as amended). The scanner is at the first block comment of the file: no entity is
  recorded and the file-level doc is empty. After the comment, the file-level doc is the
  comment's text, and the comment is still pending. When the next physical line is not
  blank and the scanner records an entity for it that is not an include, that entity is
  the first one, its docstring is the same text, and the file-level doc is unchanged.
\<close>

theorem first_comment_is_file_doc_and_entity_doc:
  assumes "starts_with (ltrim (cur p)) ''/*''"
    and "node_count (doc p) = 0" and "doc_docstring (doc p) = []"
    and "handle_line p = Inr q"
    and "next_line q = (True, q')" and "line_num q' = line_num q + 1"
    and "handle_line q' = Inr r" and "node_count (doc r) \<noteq> 0"
    and "type (nodes (doc r) 0) \<noteq> NODE_INCLUDE"
  shows "doc_docstring (doc q) = safe_strcpy [] (pending_comment q) MAX_DOC
         \<and> pending_comment q' = pending_comment q
         \<and> docstring (nodes (doc r) 0) = safe_strcpy [] (pending_comment q) MAX_DOC
         \<and> doc_docstring (doc r) = doc_docstring (doc q)
         \<and> pending_comment r = []"
proof -
  note c = first_block_comment[OF assms(1-4)]
  from next_line_reads_on[OF assms(5)]
  have ro: "pending_comment q' = pending_comment q"
    "pending_comment_line q' = pending_comment_line q" "doc q' = doc q"
    by (simp_all add: reads_on_def)
  from c ro assms(6) have pl: "pending_comment_line q' = line_num q' - 1" by simp
  from c ro have n0: "node_count (doc q') = 0" by simp
  with assms(8) have n: "node_count (doc r) \<noteq> node_count (doc q')" by simp
  from assms(9) n0 have t: "type (written q' r) \<noteq> NODE_INCLUDE" by (simp add: written_def)
  from recorded_attached[OF assms(7) n pl t] c ro n0 show ?thesis
    by (simp add: attached_def written_def)
qed

theorem first_comment_is_file_doc_and_entity_doc_witness:
  "starts_with (ltrim (cur (at_first_comment (''int f(void);'' @ [newline])))) ''/*''
   \<and> node_count (doc (at_first_comment (''int f(void);'' @ [newline]))) = 0
   \<and> doc_docstring (doc (at_first_comment (''int f(void);'' @ [newline]))) = []
   \<and> (\<exists>q q' r. handle_line (at_first_comment (''int f(void);'' @ [newline])) = Inr q
         \<and> next_line q = (True, q') \<and> line_num q' = line_num q + 1
         \<and> handle_line q' = Inr r \<and> node_count (doc r) \<noteq> 0
         \<and> type (nodes (doc r) 0) \<noteq> NODE_INCLUDE
         \<and> pending_comment q = ''doc''
         \<and> doc_docstring (doc r) = safe_strcpy [] ''doc'' MAX_DOC
         \<and> docstring (nodes (doc r) 0) = safe_strcpy [] ''doc'' MAX_DOC)"
proof -
  let ?p = "at_first_comment (''int f(void);'' @ [newline])"
  let ?q = "projr (handle_line ?p)"
  let ?q' = "snd (next_line ?q)"
  let ?r = "projr (handle_line ?q')"
  have 1: "starts_with (ltrim (cur ?p)) ''/*''"
    by (simp add: at_first_comment_def scan_defs)
  have 2: "node_count (doc ?p) = 0" and 3: "doc_docstring (doc ?p) = []"
    by (simp_all add: at_first_comment_def scan_defs)
  have 4: "handle_line ?p = Inr ?q"
    by (simp add: at_first_comment_def scan_defs loop_simps)
  have 5: "next_line ?q = (True, ?q')"
    by (simp add: at_first_comment_def scan_defs loop_simps)
  have 6: "line_num ?q' = line_num ?q + 1"
    by (simp add: at_first_comment_def scan_defs loop_simps)
  have 7: "handle_line ?q' = Inr ?r"
    by (simp add: at_first_comment_def scan_defs loop_simps)
  have 8: "node_count (doc ?r) \<noteq> 0" and 9: "type (nodes (doc ?r) 0) \<noteq> NODE_INCLUDE"
    by (simp_all add: at_first_comment_def scan_defs loop_simps)
  have 10: "pending_comment ?q = ''doc''"
    by (simp add: at_first_comment_def scan_defs loop_simps)
  from first_comment_is_file_doc_and_entity_doc[OF 1 2 3 4 5 6 7 8 9] 10
  have "doc_docstring (doc ?r) = safe_strcpy [] ''doc'' MAX_DOC
        \<and> docstring (nodes (doc ?r) 0) = safe_strcpy [] ''doc'' MAX_DOC"
    by simp
  with 1 2 3 4 5 6 7 8 9 10 show ?thesis by blast
qed

text \<open>
  C10 as stated fails when the first entity is an include: the comment is the file-level
  doc, the include begins on the next line, and its docstring is empty.
\<close>

theorem first_comment_not_attached_to_include:
  "map_sum id (\<lambda>d. (doc_docstring d, entities d))
     (parse_document ''a.c'' (Some (''/* doc */'' @ [newline] @ ''#include <a.h>'' @ [newline]))
        None ''clock'')
   = Inr (''doc'',
          [\<lparr>name = ''a.h'', type = NODE_INCLUDE, line = 2, docstring = [],
            signature = ''#include <a.h>'', return_type = [],
            is_static = False, is_inline = False, is_extern = False\<rparr>])"
  by (simp add: scan_defs loop_simps)

section \<open>The entities of a scan\<close>

lemma kept_refl: "kept p p"
  by (simp add: kept_def)












section \<open>The scan and the clock\<close>

lemma stamp_fields [simp]:
  "fp (stamp t p) = fp p" "line_buf (stamp t p) = line_buf p" "line_num (stamp t p) = line_num p"
  "pending_comment (stamp t p) = pending_comment p"
  "pending_comment_line (stamp t p) = pending_comment_line p"
  "node_count (doc (stamp t p)) = node_count (doc p)"
  "nodes (doc (stamp t p)) = nodes (doc p)"
  "doc_docstring (doc (stamp t p)) = doc_docstring (doc p)"
  "cur (stamp t p) = cur p" "line_at (stamp t p) k = line_at p k"
  by (simp_all add: stamp_def cur_def line_at_def)

lemma stamp_stamp [simp]: "stamp t (stamp t' p) = stamp t p"
  by (simp add: stamp_def)

lemma stamp_updates [simp]:
  "trim_line (stamp t p) = stamp t (trim_line p)"
  "put_node n (stamp t p) = stamp t (put_node n p)"
  "ADD_NODE (stamp t p) = stamp t (ADD_NODE p)"
  "(stamp t p)\<lparr>pending_comment := c\<rparr> = stamp t (p\<lparr>pending_comment := c\<rparr>)"
  "(stamp t p)\<lparr>pending_comment := c, pending_comment_line := l\<rparr>
     = stamp t (p\<lparr>pending_comment := c, pending_comment_line := l\<rparr>)"
  by (simp_all add: stamp_def trim_line_def put_node_def ADD_NODE_def)

lemma fgets_line_stamp [simp]:
  "fgets_line (stamp t p) = map_option (stamp t) (fgets_line p)"
  by (simp add: fgets_line_def stamp_def split: option.splits)

lemma attach_doc_stamp [simp]:
  "attach_doc c n (stamp t p) = (case attach_doc c n p of (n', q) \<Rightarrow> (n', stamp t q))"
  by (simp add: attach_doc_def)

lemma next_line_stamp [simp]:
  "next_line (stamp t p) = (case next_line p of (b, q) \<Rightarrow> (b, stamp t q))"
proof (induction p rule: next_line.induct)
  case (1 p)
  show ?case
  proof (cases "fgets_line p")
    case None
    then show ?thesis by (simp add: next_line.simps[of p] next_line.simps[of "stamp t p"])
  next
    case (Some r)
    show ?thesis
    proof (cases "length (trim (cur r)) > 0")
      case True
      with Some show ?thesis
        by (simp add: next_line.simps[of p] next_line.simps[of "stamp t p"])
    next
      case False
      with Some 1[OF Some False] show ?thesis
        by (simp add: next_line.simps[of p] next_line.simps[of "stamp t p"])
    qed
  qed
qed

lemma block_comment_loop_stamp [simp]:
  "block_comment_loop (stamp t p) buf =
     (case block_comment_loop p buf of (q, b) \<Rightarrow> (stamp t q, b))"
proof (induction p buf rule: block_comment_loop.induct)
  case (1 p buf)
  show ?case
  proof (cases "fgets_line p")
    case None
    then show ?thesis
      by (simp add: block_comment_loop.simps[of p] block_comment_loop.simps[of "stamp t p"])
  next
    case (Some r)
    show ?thesis
    proof (cases "has_str (cur r) ''*/''")
      case True
      with Some show ?thesis
        by (simp add: block_comment_loop.simps[of p] block_comment_loop.simps[of "stamp t p"] Let_def)
    next
      case False
      with Some 1[OF Some refl False] show ?thesis
        by (cases "length buf + length (cur r) < MAX_DOC - 1")
           (simp_all add: block_comment_loop.simps[of p] block_comment_loop.simps[of "stamp t p"]
              Let_def)
    qed
  qed
qed

lemma func_sig_loop_stamp [simp]:
  "func_sig_loop (stamp t p) sig = (case func_sig_loop p sig of (q, s) \<Rightarrow> (stamp t q, s))"
proof (induction p sig rule: func_sig_loop.induct)
  case (1 p sig)
  show ?case
  proof (cases "\<not> has_chr sig (CHR ''{'') \<and> \<not> has_chr sig (CHR '';'')")
    case False
    then show ?thesis
      by (auto simp: func_sig_loop.simps[of p] func_sig_loop.simps[of "stamp t p"])
  next
    case True
    show ?thesis
    proof (cases "fgets_line p")
      case None
      with True show ?thesis
        by (simp add: func_sig_loop.simps[of p] func_sig_loop.simps[of "stamp t p"])
    next
      case (Some r)
      with True 1[OF True Some] show ?thesis
        by (simp add: func_sig_loop.simps[of p] func_sig_loop.simps[of "stamp t p"])
    qed
  qed
qed

lemma typedef_sig_loop_stamp [simp]:
  "typedef_sig_loop (stamp t p) sig = (case typedef_sig_loop p sig of (q, s) \<Rightarrow> (stamp t q, s))"
proof (induction p sig rule: typedef_sig_loop.induct)
  case (1 p sig)
  show ?case
  proof (cases "\<not> has_chr sig (CHR '';'')")
    case False
    then show ?thesis
      by (auto simp: typedef_sig_loop.simps[of p] typedef_sig_loop.simps[of "stamp t p"])
  next
    case True
    show ?thesis
    proof (cases "fgets_line p")
      case None
      with True show ?thesis
        by (simp add: typedef_sig_loop.simps[of p] typedef_sig_loop.simps[of "stamp t p"])
    next
      case (Some r)
      with True 1[OF True Some] show ?thesis
        by (simp add: typedef_sig_loop.simps[of p] typedef_sig_loop.simps[of "stamp t p"])
    qed
  qed
qed

lemma macro_loop_stamp [simp]:
  "macro_loop (stamp t p) sig = (case macro_loop p sig of (q, s) \<Rightarrow> (stamp t q, s))"
proof (induction p sig rule: macro_loop.induct)
  case (1 p sig)
  show ?case
  proof (cases "\<not> has_backslash sig \<and> \<not> penultimate_backslash sig")
    case True
    then show ?thesis
      by (auto simp: macro_loop.simps[of p] macro_loop.simps[of "stamp t p"])
  next
    case False
    show ?thesis
    proof (cases "fgets_line p")
      case None
      with False show ?thesis
        by (auto simp: macro_loop.simps[of p] macro_loop.simps[of "stamp t p"])
    next
      case (Some r)
      with False 1[OF False Some] show ?thesis
        by (auto simp: macro_loop.simps[of p] macro_loop.simps[of "stamp t p"])
    qed
  qed
qed

lemma variable_loop_stamp [simp]:
  "variable_loop (stamp t p) sig = (case variable_loop p sig of (q, s) \<Rightarrow> (stamp t q, s))"
proof (induction p sig rule: variable_loop.induct)
  case (1 p sig)
  show ?case
  proof (cases "fgets_line p")
    case None
    then show ?thesis
      by (simp add: variable_loop.simps[of p] variable_loop.simps[of "stamp t p"])
  next
    case (Some r)
    show ?thesis
    proof (cases "has_chr (cur r) (CHR ''}'') \<or> has_chr (cur r) (CHR '';'')")
      case True
      with Some show ?thesis
        by (auto simp: variable_loop.simps[of p] variable_loop.simps[of "stamp t p"] Let_def)
    next
      case False
      with Some 1[OF Some refl False] show ?thesis
        by (simp add: variable_loop.simps[of p] variable_loop.simps[of "stamp t p"] Let_def)
    qed
  qed
qed

lemma stamp_file_doc:
  "(stamp t q)\<lparr>doc := (doc (stamp t q))\<lparr>doc_docstring := x\<rparr>\<rparr>
     = stamp t (q\<lparr>doc := (doc q)\<lparr>doc_docstring := x\<rparr>\<rparr>)"
  by (simp add: stamp_def)

lemma stamp_line [simp]:
  "(stamp t p)\<lparr>pending_comment_line := l\<rparr> = stamp t (p\<lparr>pending_comment_line := l\<rparr>)"
  by (simp add: stamp_def)

lemma parse_block_comment_stamp [simp]:
  "parse_block_comment (stamp t p) = stamp t (parse_block_comment p)"
proof -
  obtain q b where loop: "block_comment_loop p (safe_append [] (cur p) MAX_DOC) = (q, b)"
    by (cases "block_comment_loop p (safe_append [] (cur p) MAX_DOC)")
  show ?thesis
    by (simp add: parse_block_comment_def Let_def loop)
qed

lemma parse_aggregate_stamp [simp]:
  "parse_aggregate (stamp t p) k = stamp t (parse_aggregate p k)"
  by (simp add: parse_aggregate_def Let_def attach_doc_def del: attach_doc_stamp)

lemma parse_include_stamp [simp]:
  "parse_include (stamp t p) = stamp t (parse_include p)"
  by (simp add: parse_include_def Let_def split: option.splits)

lemma parse_macro_stamp [simp]:
  "parse_macro (stamp t p) = stamp t (parse_macro p)"
proof (cases "strstr (cur p) ''#define''")
  case None
  then show ?thesis by (simp add: parse_macro_def)
next
  case (Some d)
  obtain q s where loop: "macro_loop p (safe_strcpy [] d MAX_SIG) = (q, s)"
    by (cases "macro_loop p (safe_strcpy [] d MAX_SIG)")
  show ?thesis
    by (simp add: parse_macro_def Let_def Some loop attach_doc_def del: attach_doc_stamp)
qed

lemma variable_sig_stamp [simp]:
  "variable_sig (stamp t p) k = (case variable_sig p k of (q, s) \<Rightarrow> (stamp t q, s))"
  by (simp add: variable_sig_def Let_def)

lemma parse_variable_stamp [simp]:
  "parse_variable (stamp t p) k st = stamp t (parse_variable p k st)"
proof -
  obtain q s where loop: "variable_sig p k = (q, s)"
    by (cases "variable_sig p k")
  show ?thesis
    by (simp add: parse_variable_def Let_def loop attach_doc_def del: attach_doc_stamp)
qed

lemma parse_typedef_stamp [simp]:
  "parse_typedef (stamp t p) = map_sum id (stamp t) (parse_typedef p)"
proof -
  obtain q s where loop: "typedef_sig_loop p (safe_append [] (cur p) MAX_SIG) = (q, s)"
    by (cases "typedef_sig_loop p (safe_append [] (cur p) MAX_SIG)")
  show ?thesis
    by (simp add: parse_typedef_def Let_def loop attach_doc_def del: attach_doc_stamp)
qed

lemma parse_function_stamp [simp]:
  "parse_function (stamp t p) st inl ext = map_sum id (stamp t) (parse_function p st inl ext)"
proof -
  obtain q s where loop: "func_sig_loop p (safe_append [] (cur p) MAX_SIG) = (q, s)"
    by (cases "func_sig_loop p (safe_append [] (cur p) MAX_SIG)")
  show ?thesis
    by (simp add: parse_function_def Let_def loop attach_doc_def split: option.splits
             del: attach_doc_stamp)
qed

lemma is_variable_line_stamp [simp]:
  "is_variable_line (stamp t p) ln st ext = is_variable_line p ln st ext"
  by (simp add: is_variable_line_def)

lemma handle_line_stamp [simp]:
  "handle_line (stamp t p) = map_sum id (stamp t) (handle_line p)"
  by (simp add: handle_line_def Let_def stamp_file_doc)

lemma parse_loop_stamp:
  "parse_loop (stamp t p) = map_sum id (stamp t) (parse_loop p)"
proof (induction p rule: parse_loop.induct)
  case (1 p)
  obtain got a where nl: "next_line p = (got, a)" by (cases "next_line p")
  show ?case
  proof (cases got)
    case False
    with nl show ?thesis
      by (simp add: parse_loop.simps[of p] parse_loop.simps[of "stamp t p"])
  next
    case True
    show ?thesis
    proof (cases "handle_line a")
      case (Inl e)
      with True nl show ?thesis
        by (simp add: parse_loop.simps[of p] parse_loop.simps[of "stamp t p"])
    next
      case (Inr r)
      with True nl 1[OF nl[symmetric] True Inr] show ?thesis
        by (simp add: parse_loop.simps[of p] parse_loop.simps[of "stamp t p"])
    qed
  qed
qed

text \<open>
  C8. The scan is a function of the file name and the file content; the wall clock
  enters only through the timestamp. Two scans of the same file, at any two times, fail
  alike or return documents that are equal in every field but \<open>timestamp\<close>: file path,
  module name, file-level doc, the count and every slot of the node array.
\<close>

theorem scan_deterministic_up_to_timestamp:
  "map_sum id (\<lambda>d. d\<lparr>timestamp := []\<rparr>) (parse_document filename src clock1 clock2)
   = map_sum id (\<lambda>d. d\<lparr>timestamp := []\<rparr>) (parse_document filename src clock1' clock2')"
proof (cases src)
  case None
  then show ?thesis by (simp add: parse_document_def)
next
  case (Some content)
  define p0 where "p0 = zero_parser\<lparr>fp := content,
     doc := zero_doc\<lparr>filepath := safe_strcpy [] filename MAX_LINE,
                      doc_module_name := extract_module_name filename MAX_NAME\<rparr>\<rparr>"
  have run: "parse_document filename src c1 c2 = map_sum id (\<lambda>q. doc (stamp c2 q)) (parse_loop p0)"
    for c1 c2
  proof -
    have "parse_document filename src c1 c2
          = map_sum id doc (parse_loop (stamp c2 p0))"
      unfolding parse_document_def parse_file_def Let_def Some p0_def stamp_def
      by (simp split: sum.splits)
    then show ?thesis
      by (cases "parse_loop p0") (simp_all add: parse_loop_stamp)
  qed
  have blank: "(doc (stamp c q))\<lparr>timestamp := []\<rparr> = (doc q)\<lparr>timestamp := []\<rparr>" for c q
    by (simp add: stamp_def)
  show ?thesis
    by (cases "parse_loop p0") (simp_all add: run blank)
qed

section \<open>Function headers split across lines\<close>

text \<open>
  C2 as stated fails: for the header split as \<open>static int\<close> and \<open>  add(int a, int b) {\<close>
  (here with its body) the scan records no entity. The first line has no parenthesis,
  the second has no qualifier and starts with no type keyword, so neither reaches
  \<open>parse_function\<close>.
\<close>

theorem split_before_name_gives_no_entity:
  "map_sum id entities
     (parse_document ''add.c''
        (Some (''static int'' @ [newline] @ ''  add(int a, int b) {'' @ [newline]
               @ ''  return a + b;'' @ [newline] @ ''}'' @ [newline]))
        None ''clock'')
   = Inr []"
  by (simp add: scan_defs loop_simps)

text \<open>
  C2 (as amended). A header split after its opening parenthesis, \<open>static int add(int a,\<close>
  followed by \<open>  int b) {\<close>, gives exactly one entity: the function \<open>add\<close> with return
  type \<open>static int\<close>, static, and the signature \<open>static int add(int a, int b)\<close>, without
  the brace. Split as \<open>static int\<close> and \<open>  add(int a, int b) {\<close> it gives no entity.
\<close>

theorem split_after_paren_gives_function:
  "map_sum id entities
     (parse_document filename
        (Some (''static int add(int a,'' @ [newline] @ ''  int b) {'' @ [newline]))
        clock1 clock2)
   = Inr [\<lparr>name = ''add'', type = NODE_FUNCTION, line = 1, docstring = [],
           signature = ''static int add(int a, int b)'', return_type = ''static int'',
           is_static = True, is_inline = False, is_extern = False\<rparr>]
   \<and> CHR ''{'' \<notin> set ''static int add(int a, int b)''
   \<and> map_sum id entities
       (parse_document filename
          (Some (''static int'' @ [newline] @ ''  add(int a, int b) {'' @ [newline]))
          clock1 clock2)
     = Inr []"
  by (simp add: scan_defs loop_simps)

section \<open>Variables with an initializer on several lines\<close>

text \<open>
  C5 fails on the code. For the declaration \<open>static int t[] = {\<close>, \<open>  1, 2\<close>, \<open>};\<close> the
  reconstruction loop of \<open>parse_variable\<close> reads the two continuation lines and appends
  one space for each, not their text: the declaration it builds is the first line
  followed by two spaces. The name is then read from the line buffer, which by now
  holds the last line read, and is empty.
\<close>

theorem variable_continuation_text_not_appended:
  "snd (variable_sig
          (snd (next_line (zero_parser\<lparr>fp := ''static int t[] = {'' @ [newline]
                                    @ ''  1, 2'' @ [newline] @ ''};'' @ [newline]\<rparr>))) 0)
   = ''static int t[] = {'' @ ''  ''
   \<and> map_sum id entities
       (parse_document ''t.c''
          (Some (''static int t[] = {'' @ [newline] @ ''  1, 2'' @ [newline]
                 @ ''};'' @ [newline]))
          None ''clock'')
     = Inr [\<lparr>name = [], type = NODE_VARIABLE, line = 1, docstring = [],
             signature = ''static int t[]'', return_type = [],
             is_static = True, is_inline = False, is_extern = False\<rparr>]"
  by (simp add: scan_defs loop_simps)

section \<open>Typedefs of structs\<close>

text \<open>
  C7 fails on the code in the name. The line \<open>typedef struct { int x; int y; } Point;\<close>
  gives exactly one entity, a typedef and no struct, but \<open>parse_typedef\<close> cuts the
  declaration at its first semicolon: the entity is named \<open>x\<close>, not \<open>Point\<close>, and its
  signature is \<open>typedef struct { int x\<close>.
\<close>

theorem typedef_struct_named_after_first_member:
  "map_sum id entities
     (parse_document ''point.h''
        (Some (''typedef struct { int x; int y; } Point;'' @ [newline]))
        None ''clock'')
   = Inr [\<lparr>name = ''x'', type = NODE_TYPEDEF, line = 1, docstring = [],
           signature = ''typedef struct { int x'', return_type = [],
           is_static = False, is_inline = False, is_extern = False\<rparr>]"
  by (simp add: scan_defs loop_simps)

section \<open>Signatures\<close>

subsection \<open>Cutting and trimming\<close>

lemma cut_at_takeWhile: "cut_at c s = takeWhile (\<lambda>x. x \<noteq> c) s"
proof (cases "dropWhile (\<lambda>x. x \<noteq> c) s")
  case Nil
  then have tw: "takeWhile (\<lambda>x. x \<noteq> c) s = s"
    by (metis append_Nil2 takeWhile_dropWhile_id)
  have "cut_at c s = s"
    unfolding cut_at_def strchr_def Nil by simp
  with tw show ?thesis by (simp only:)
next
  case (Cons r rs)
  have "length s = length (takeWhile (\<lambda>x. x \<noteq> c) s) + length (dropWhile (\<lambda>x. x \<noteq> c) s)"
    by (metis length_append takeWhile_dropWhile_id)
  then have "take (length s - length (dropWhile (\<lambda>x. x \<noteq> c) s)) s = takeWhile (\<lambda>x. x \<noteq> c) s"
    by (metis add_diff_cancel_right' append_eq_conv_conj takeWhile_dropWhile_id)
  then show ?thesis unfolding cut_at_def strchr_def Cons by (simp add: Cons)
qed

lemma cut_at_free: "c \<notin> set (cut_at c s)"
  by (auto simp: cut_at_takeWhile dest: set_takeWhileD)

lemma set_cut_at: "set (cut_at c s) \<subseteq> set s"
  by (auto simp: cut_at_takeWhile dest: set_takeWhileD)

lemma factor_set: "factor t s \<Longrightarrow> set t \<subseteq> set s"
  by (auto simp: factor_def)

lemma factor_trans: "factor a b \<Longrightarrow> factor b c \<Longrightarrow> factor a c"
proof -
  assume "factor a b" and "factor b c"
  then obtain u v u' v' where "b = u @ a @ v" "c = u' @ b @ v'"
    by (auto simp: factor_def)
  then have "c = (u' @ u) @ a @ (v @ v')" by simp
  then show ?thesis unfolding factor_def by blast
qed

lemma factor_take: "factor (take k s) s"
  unfolding factor_def by (rule exI[of _ "[]"], rule exI[of _ "drop k s"]) simp

lemma factor_takeWhile: "factor (takeWhile P s) s"
  unfolding factor_def by (rule exI[of _ "[]"], rule exI[of _ "dropWhile P s"]) simp

lemma factor_dropWhile: "factor (dropWhile P s) s"
  unfolding factor_def by (rule exI[of _ "takeWhile P s"], rule exI[of _ "[]"]) simp

lemma factor_rtrim: "factor (rtrim s) s"
proof (cases s)
  case Nil
  then show ?thesis by (simp add: rtrim_def factor_def)
next
  case (Cons c cs)
  have "rev cs = takeWhile isspace (rev cs) @ dropWhile isspace (rev cs)" by simp
  then have "cs = rev (dropWhile isspace (rev cs)) @ rev (takeWhile isspace (rev cs))"
    by (metis rev_append rev_rev_ident)
  then have "s = [] @ rtrim s @ rev (takeWhile isspace (rev cs))"
    using Cons by (simp add: rtrim_def)
  then show ?thesis unfolding factor_def by blast
qed

lemma factor_trim: "factor (trim s) s"
  unfolding trim_def ltrim_def by (rule factor_trans[OF factor_rtrim factor_dropWhile])

lemma factor_Nil: "factor [] s"
  unfolding factor_def by (rule exI[of _ "[]"], rule exI[of _ s]) simp

lemma factor_safe_strcpy: "factor (safe_strcpy [] s n) s"
  by (simp add: safe_strcpy_def factor_take factor_Nil)

lemma factor_cut_at: "factor (cut_at c s) s"
  by (simp add: cut_at_takeWhile factor_takeWhile)

lemma factor_signature: "factor (safe_strcpy [] (trim s) n) s"
  by (rule factor_trans[OF factor_safe_strcpy factor_trim])

subsection \<open>Occurrences of a string\<close>

lemma starts_with_iff: "starts_with s n \<longleftrightarrow> (\<exists>b. s = n @ b)"
proof
  assume "starts_with s n"
  then have "s = n @ drop (length n) s"
    by (metis append_take_drop_id starts_with_def)
  then show "\<exists>b. s = n @ b" ..
next
  assume "\<exists>b. s = n @ b"
  then show "starts_with s n" by (auto simp: starts_with_def)
qed

lemma has_str_Cons: "has_str (c # cs) n \<longleftrightarrow> starts_with (c # cs) n \<or> has_str cs n"
  by (simp add: has_str_def)

lemma has_str_iff: "has_str s n \<longleftrightarrow> (\<exists>a b. s = a @ n @ b)"
proof (induction s)
  case Nil
  show ?case by (simp add: has_str_def)
next
  case (Cons c cs)
  show ?case
  proof
    assume "has_str (c # cs) n"
    then consider "starts_with (c # cs) n" | "has_str cs n" by (auto simp: has_str_Cons)
    then show "\<exists>a b. c # cs = a @ n @ b"
    proof cases
      case 1
      then obtain b where "c # cs = n @ b" by (auto simp: starts_with_iff)
      then have "c # cs = [] @ n @ b" by simp
      then show ?thesis by blast
    next
      case 2
      with Cons obtain a b where "cs = a @ n @ b" by blast
      then have "c # cs = (c # a) @ n @ b" by simp
      then show ?thesis by blast
    qed
  next
    assume "\<exists>a b. c # cs = a @ n @ b"
    then obtain a b where ab: "c # cs = a @ n @ b" by blast
    show "has_str (c # cs) n"
    proof (cases a)
      case Nil
      with ab have "starts_with (c # cs) n" by (auto simp: starts_with_iff)
      then show ?thesis by (simp add: has_str_Cons)
    next
      case (Cons x xs)
      with ab have "cs = xs @ n @ b" by simp
      with Cons.IH have "has_str cs n" by blast
      then show ?thesis by (simp add: has_str_Cons)
    qed
  qed
qed

lemma has_str_factor: "factor t s \<Longrightarrow> has_str t n \<Longrightarrow> has_str s n"
proof -
  assume "factor t s" and "has_str t n"
  then obtain u v a b where "s = u @ t @ v" "t = a @ n @ b"
    by (auto simp: factor_def has_str_iff)
  then have "s = (u @ a) @ n @ (b @ v)" by simp
  then show ?thesis unfolding has_str_iff by blast
qed

lemma strstr_length: "strstr s n = Some r \<Longrightarrow> length r \<le> length s"
  by (induction s) (auto split: if_splits)

lemma starts_with_take: "starts_with (take k s) n \<Longrightarrow> starts_with s n"
proof -
  assume "starts_with (take k s) n"
  then obtain b where "take k s = n @ b" by (auto simp: starts_with_iff)
  then have "s = n @ (b @ drop k s)" by (metis append.assoc append_take_drop_id)
  then show ?thesis unfolding starts_with_iff by blast
qed

lemma before_first_occurrence:
  "strstr s n = Some r \<Longrightarrow> n \<noteq> [] \<Longrightarrow> \<not> has_str (take (length s - length r) s) n"
proof (induction s)
  case Nil
  then show ?case by (simp add: has_str_def)
next
  case (Cons c cs)
  show ?case
  proof (cases "starts_with (c # cs) n")
    case True
    with Cons.prems show ?thesis by (simp add: has_str_def)
  next
    case False
    with Cons.prems have r: "strstr cs n = Some r" by simp
    from strstr_length[OF r] have "length (c # cs) - length r = Suc (length cs - length r)"
      by simp
    then have t: "take (length (c # cs) - length r) (c # cs) = c # take (length cs - length r) cs"
      by simp
    have "\<not> starts_with (c # take (length cs - length r) cs) n"
    proof
      assume "starts_with (c # take (length cs - length r) cs) n"
      then have "starts_with (take (Suc (length cs - length r)) (c # cs)) n" by simp
      from starts_with_take[OF this] False show False by simp
    qed
    with Cons.IH[OF r Cons.prems(2)] show ?thesis
      unfolding t by (simp add: has_str_Cons)
  qed
qed

subsection \<open>The signature each extractor stores\<close>

lemma parse_function_signature:
  assumes "parse_function p st inl ext = Inr r"
  shows "signature (written p r) =
         safe_strcpy [] (trim (cut_at (CHR '';'') (cut_at (CHR ''{'')
           (snd (func_sig_loop p (safe_append [] (cur p) MAX_SIG)))))) MAX_SIG"
proof -
  obtain p1 sig1 where loop: "func_sig_loop p (safe_append [] (cur p) MAX_SIG) = (p1, sig1)"
    by (cases "func_sig_loop p (safe_append [] (cur p) MAX_SIG)")
  note ro = func_sig_loop_reads_on[OF loop, unfolded reads_on_def]
  from assms loop ro show ?thesis
    unfolding parse_function_def Let_def
    by (auto simp: extract_simps split: option.splits if_splits)
qed

lemma parse_typedef_signature:
  assumes "parse_typedef p = Inr r"
  shows "signature (written p r) =
         safe_strcpy [] (trim (cut_at (CHR '';'')
           (snd (typedef_sig_loop p (safe_append [] (cur p) MAX_SIG))))) MAX_SIG"
proof -
  obtain p1 sig1 where loop: "typedef_sig_loop p (safe_append [] (cur p) MAX_SIG) = (p1, sig1)"
    by (cases "typedef_sig_loop p (safe_append [] (cur p) MAX_SIG)")
  note ro = typedef_sig_loop_reads_on[OF loop, unfolded reads_on_def]
  from assms loop ro show ?thesis
    unfolding parse_typedef_def Let_def
    by (auto simp: extract_simps split: option.splits if_splits)
qed

lemma parse_macro_signature:
  assumes "strstr (cur p) ''#define'' = Some d"
  shows "signature (written p (parse_macro p)) =
         safe_strcpy [] (trim (snd (macro_loop p (safe_strcpy [] d MAX_SIG)))) MAX_SIG"
proof -
  obtain p1 sig1 where loop: "macro_loop p (safe_strcpy [] d MAX_SIG) = (p1, sig1)"
    by (cases "macro_loop p (safe_strcpy [] d MAX_SIG)")
  note ro = macro_loop_reads_on[OF loop, unfolded reads_on_def]
  from assms loop ro show ?thesis
    unfolding parse_macro_def Let_def by (auto simp: extract_simps)
qed

lemma parse_variable_signature:
  "signature (written p (parse_variable p k st)) =
   safe_strcpy []
     (trim (case strstr (snd (variable_sig p k)) '' = '' of
              Some eq \<Rightarrow> take (length (snd (variable_sig p k)) - length eq) (snd (variable_sig p k))
            | None \<Rightarrow> cut_at (CHR ''{'') (snd (variable_sig p k)))) MAX_SIG"
proof -
  obtain p1 sig1 where loop: "variable_sig p k = (p1, sig1)"
    by (cases "variable_sig p k")
  note ro = variable_sig_reads_on[OF loop, unfolded reads_on_def]
  from loop ro show ?thesis
    unfolding parse_variable_def Let_def by (auto simp: extract_simps split: option.splits)
qed

lemma signature_free:
  assumes "c \<notin> set s"
  shows "c \<notin> set (safe_strcpy [] (trim s) n)"
  using factor_set[OF factor_signature[of s n]] assms by blast

lemma signature_no_occurrence:
  assumes "\<not> has_str s n"
  shows "\<not> has_str (safe_strcpy [] (trim s) m) n"
  using has_str_factor[OF factor_signature[of s m]] assms by blast

lemma variable_cut_no_assignment:
  "\<not> has_str (case strstr s '' = '' of
                Some eq \<Rightarrow> take (length s - length eq) s
              | None \<Rightarrow> cut_at (CHR ''{'') s) '' = ''"
proof (cases "strstr s '' = ''")
  case None
  then have "\<not> has_str s '' = ''" by (simp add: has_str_def)
  with has_str_factor[OF factor_cut_at[of "CHR ''{''" s]] None show ?thesis by auto
next
  case (Some eq)
  from before_first_occurrence[OF Some] Some show ?thesis by simp
qed

text \<open>
  C3 (as amended). The signature of a function has neither \<open>{\<close> nor \<open>;\<close>. The signature
  of a typedef has no \<open>;\<close>. The signature of a variable has no \<open> = \<close>, and no \<open>{\<close>
  when the declaration built has no \<open> = \<close>. The signature of a struct, union or enum,
  and of an include, is the whole line, trimmed; the signature of a macro is the whole
  text joined from its lines, trimmed: nothing is cut from them.
\<close>

theorem signature_cut_per_kind:
  "(parse_function p st inl ext = Inr r \<longrightarrow>
      CHR ''{'' \<notin> set (signature (written p r)) \<and> CHR '';'' \<notin> set (signature (written p r)))
   \<and> (parse_typedef p = Inr r' \<longrightarrow> CHR '';'' \<notin> set (signature (written p r')))
   \<and> \<not> has_str (signature (written p (parse_variable p k st))) '' = ''
   \<and> (has_str (snd (variable_sig p k)) '' = ''
        \<or> CHR ''{'' \<notin> set (signature (written p (parse_variable p k st))))
   \<and> signature (written p (parse_aggregate p t)) = safe_strcpy [] (trim (cur p)) MAX_SIG
   \<and> signature (written p (parse_include p)) = safe_strcpy [] (trim (cur p)) MAX_SIG
   \<and> (strstr (cur p) ''#define'' = Some d \<longrightarrow>
        signature (written p (parse_macro p)) =
          safe_strcpy [] (trim (snd (macro_loop p (safe_strcpy [] d MAX_SIG)))) MAX_SIG)"
proof (intro conjI impI)
  assume f: "parse_function p st inl ext = Inr r"
  have "CHR ''{'' \<notin> set (cut_at (CHR '';'') (cut_at (CHR ''{'') s))" for s
    using set_cut_at[of "CHR '';''" "cut_at (CHR ''{'') s"] cut_at_free[of "CHR ''{''" s] by blast
  then show "CHR ''{'' \<notin> set (signature (written p r))"
    unfolding parse_function_signature[OF f] by (rule signature_free)
  show "CHR '';'' \<notin> set (signature (written p r))"
    unfolding parse_function_signature[OF f] by (rule signature_free[OF cut_at_free])
next
  assume t: "parse_typedef p = Inr r'"
  show "CHR '';'' \<notin> set (signature (written p r'))"
    unfolding parse_typedef_signature[OF t] by (rule signature_free[OF cut_at_free])
next
  show "\<not> has_str (signature (written p (parse_variable p k st))) '' = ''"
    unfolding parse_variable_signature
    by (rule signature_no_occurrence[OF variable_cut_no_assignment])
next
  show "has_str (snd (variable_sig p k)) '' = ''
        \<or> CHR ''{'' \<notin> set (signature (written p (parse_variable p k st)))"
  proof (cases "has_str (snd (variable_sig p k)) '' = ''")
    case True
    then show ?thesis by simp
  next
    case False
    then have "strstr (snd (variable_sig p k)) '' = '' = None" by (simp add: has_str_def)
    then have "signature (written p (parse_variable p k st)) =
               safe_strcpy [] (trim (cut_at (CHR ''{'') (snd (variable_sig p k)))) MAX_SIG"
      by (simp add: parse_variable_signature)
    with signature_free[OF cut_at_free] show ?thesis by simp
  qed
next
  show "signature (written p (parse_aggregate p t)) = safe_strcpy [] (trim (cur p)) MAX_SIG"
    using parse_aggregate_written[of p t] by simp
next
  show "signature (written p (parse_include p)) = safe_strcpy [] (trim (cur p)) MAX_SIG"
    using parse_include_written[of p] by simp
next
  assume "strstr (cur p) ''#define'' = Some d"
  then show "signature (written p (parse_macro p)) =
          safe_strcpy [] (trim (snd (macro_loop p (safe_strcpy [] d MAX_SIG)))) MAX_SIG"
    by (rule parse_macro_signature)
qed

theorem signature_cut_per_kind_witness:
  "(\<exists>r. parse_function (on_line ''int f(void) { return 1; }'') False False False = Inr r
        \<and> signature (written (on_line ''int f(void) { return 1; }'') r) = ''int f(void)''
        \<and> CHR ''{'' \<notin> set (signature (written (on_line ''int f(void) { return 1; }'') r))
        \<and> CHR '';'' \<notin> set (signature (written (on_line ''int f(void) { return 1; }'') r)))
   \<and> (\<exists>r'. parse_typedef (on_line ''typedef int T;'') = Inr r'
        \<and> CHR '';'' \<notin> set (signature (written (on_line ''typedef int T;'') r')))
   \<and> \<not> has_str (snd (variable_sig (on_line ''static int t[2] {1, 2};'') 0)) '' = ''
   \<and> CHR ''{'' \<notin> set (signature (written (on_line ''static int t[2] {1, 2};'')
                                 (parse_variable (on_line ''static int t[2] {1, 2};'') 0 True)))
   \<and> (\<exists>d. strstr (cur (on_line ''#define N {1;}'')) ''#define'' = Some d
        \<and> signature (written (on_line ''#define N {1;}'') (parse_macro (on_line ''#define N {1;}'')))
            = safe_strcpy [] (trim (snd (macro_loop (on_line ''#define N {1;}'')
                                           (safe_strcpy [] d MAX_SIG)))) MAX_SIG)"
proof -
  let ?f = "on_line ''int f(void) { return 1; }''"
  let ?t = "on_line ''typedef int T;''"
  let ?v = "on_line ''static int t[2] {1, 2};''"
  let ?m = "on_line ''#define N {1;}''"
  let ?r = "projr (parse_function ?f False False False)"
  let ?r' = "projr (parse_typedef ?t)"
  let ?d = "the (strstr (cur ?m) ''#define'')"
  have f: "parse_function ?f False False False = Inr ?r"
    by (simp add: on_line_def scan_defs loop_simps)
  have fs: "signature (written ?f ?r) = ''int f(void)''"
    by (simp add: on_line_def written_def scan_defs loop_simps)
  have t: "parse_typedef ?t = Inr ?r'"
    by (simp add: on_line_def scan_defs loop_simps)
  have v: "\<not> has_str (snd (variable_sig ?v 0)) '' = ''"
    by (simp add: on_line_def scan_defs loop_simps)
  have m: "strstr (cur ?m) ''#define'' = Some ?d"
    by (simp add: on_line_def scan_defs)
  from signature_cut_per_kind[where p = ?f and st = False and inl = False and ext = False and r = ?r] f
  have 1: "CHR ''{'' \<notin> set (signature (written ?f ?r))"
    and 2: "CHR '';'' \<notin> set (signature (written ?f ?r))"
    by blast+
  from signature_cut_per_kind[where p = ?t and r' = ?r'] t
  have 3: "CHR '';'' \<notin> set (signature (written ?t ?r'))"
    by blast
  from signature_cut_per_kind[where p = ?v and k = 0 and st = True] v
  have 4: "CHR ''{'' \<notin> set (signature (written ?v (parse_variable ?v 0 True)))"
    by blast
  from signature_cut_per_kind[where p = ?m and d = ?d] m
  have 5: "signature (written ?m (parse_macro ?m))
           = safe_strcpy [] (trim (snd (macro_loop ?m (safe_strcpy [] ?d MAX_SIG)))) MAX_SIG"
    by blast
  have A: "\<exists>r. parse_function ?f False False False = Inr r
        \<and> signature (written ?f r) = ''int f(void)''
        \<and> CHR ''{'' \<notin> set (signature (written ?f r))
        \<and> CHR '';'' \<notin> set (signature (written ?f r))"
    by (rule exI[of _ ?r]) (intro conjI f fs 1 2)
  have B: "\<exists>r'. parse_typedef ?t = Inr r' \<and> CHR '';'' \<notin> set (signature (written ?t r'))"
    by (rule exI[of _ ?r']) (intro conjI t 3)
  have C: "\<exists>d. strstr (cur ?m) ''#define'' = Some d
        \<and> signature (written ?m (parse_macro ?m))
            = safe_strcpy [] (trim (snd (macro_loop ?m (safe_strcpy [] d MAX_SIG)))) MAX_SIG"
    by (rule exI[of _ ?d]) (intro conjI m 5)
  show ?thesis by (intro conjI A B v 4 C)
qed

text \<open>
  C3 as stated fails for a struct: scanning \<open>struct Point { int x; int y; };\<close> gives a
  struct whose signature is the whole line, body included.
\<close>

theorem struct_signature_keeps_body:
  "map_sum id entities
     (parse_document ''point.h'' (Some (''struct Point { int x; int y; };'' @ [newline]))
        None ''clock'')
   = Inr [\<lparr>name = ''Point'', type = NODE_STRUCT, line = 1, docstring = [],
           signature = ''struct Point { int x; int y; };'', return_type = [],
           is_static = False, is_inline = False, is_extern = False\<rparr>]
   \<and> CHR ''{'' \<in> set ''struct Point { int x; int y; };''
   \<and> CHR '';'' \<in> set ''struct Point { int x; int y; };''"
  by (simp add: scan_defs loop_simps)

end
